theory Spec2Isabelle
  imports Complex_Main "HOL-Library.AList" "HOL-Library.Log_Nat"
begin

section \<open>Numbers and rounding\<close>

text \<open>
  The expense calculator works on JavaScript numbers. The code is embedded twice. In the
  first embedding numbers are exact real numbers: every sum, product and comparison is
  the mathematical one. It serves the claims about which entries a result has, which
  error is raised, and where a rounding is placed. The second embedding (suffix \<open>_f64\<close>,
  further down) performs every operation in double precision; it serves the claims
  about the values of shares and transactions.

  The one rounding the code performs on purpose is \<^verbatim>\<open>parseFloat(x.toFixed(2))\<close>: the
  nearest multiple of 0.01, a tie going away from zero (\<^verbatim>\<open>toFixed\<close> rounds the magnitude
  and picks the larger candidate on a tie, then restores the sign). Magnitudes of 10^21
  and more, which \<^verbatim>\<open>toFixed\<close> prints in exponent form, do not occur in the claims.
\<close>

definition toFixed2 :: "real \<Rightarrow> real" where
  "toFixed2 x =
     (if x < 0 then - (of_int \<lfloor>(- x) * 100 + 1 / 2\<rfloor> / 100)
      else of_int \<lfloor>x * 100 + 1 / 2\<rfloor> / 100)"

text \<open>A number that is a whole count of cents.\<close>

definition cents :: "real \<Rightarrow> bool" where
  "cents x \<longleftrightarrow> of_int \<lfloor>x * 100\<rfloor> = x * 100"

section \<open>Split allocation: \<^verbatim>\<open>calculateSplits\<close>\<close>

text \<open>
  \<^verbatim>\<open>src/utils/expenseCalculator.js\<close> holds two revisions of the module. The first one
  (suffix \<open>_v1\<close>) computes all three strategies inline; the second one (suffix \<open>_v2\<close>)
  delegates to \<^verbatim>\<open>calculateEqualSplit\<close>, \<^verbatim>\<open>calculatePercentageSplit\<close> and
  \<^verbatim>\<open>validateExactSplit\<close>. Every \<^verbatim>\<open>throw new Error(...)\<close> is a constructor of \<open>error\<close>;
  where the message embeds a value, the constructor carries it.

  \<^verbatim>\<open>splitDetails\<close> is a JavaScript object; it is an association list in the order in
  which \<^verbatim>\<open>for ... in\<close> and \<^verbatim>\<open>Object.values\<close> visit its keys. Its values are finite
  numbers (so \<^verbatim>\<open>parseFloat\<close> of the first revision returns them unchanged and the
  \<^verbatim>\<open>typeof ... !== 'number'\<close> test of the second revision is false); strings and
  \<^verbatim>\<open>NaN\<close> as values are outside the model.
\<close>

datatype error =
    InvalidExpenseAmount
  | NoUsersProvided
  | TotalPercentageMustEqual100
  | TotalExactMustEqualAmount
  | InvalidSplitType
  | InvalidSplitTypeNamed string
  | InvalidPercentageForUser string
  | InvalidShareForUser string
  | TotalPercentageIs real
  | TotalSharesIs real real

record split =
  user :: string
  share :: real

definition calculateSplits_v1 ::
  "real \<Rightarrow> string \<Rightarrow> string list \<Rightarrow> (string \<times> real) list \<Rightarrow> error + split list" where
  "calculateSplits_v1 amount splitType users splitDetails =
     (if amount \<le> 0 then Inl InvalidExpenseAmount
      else if users = [] then Inl NoUsersProvided
      else if splitType = ''equal'' then
        (let share = amount / of_nat (length users)
         in Inr (map (\<lambda>userId. \<lparr>user = userId, share = toFixed2 share\<rparr>) users))
      else if splitType = ''percentage'' then
        (let totalPercentage = fold (\<lambda>val sum. sum + val) (map snd splitDetails) 0
         in if \<bar>totalPercentage - 100\<bar> > 1 / 100 then Inl TotalPercentageMustEqual100
            else Inr (map (\<lambda>(userId, percentage).
                             \<lparr>user = userId, share = toFixed2 ((percentage / 100) * amount)\<rparr>)
                          splitDetails))
      else if splitType = ''exact'' then
        (let totalExact = fold (\<lambda>val sum. sum + val) (map snd splitDetails) 0
         in if \<bar>totalExact - amount\<bar> > 1 / 100 then Inl TotalExactMustEqualAmount
            else Inr (map (\<lambda>(userId, val). \<lparr>user = userId, share = toFixed2 val\<rparr>)
                          splitDetails))
      else Inl InvalidSplitType)"

definition calculateEqualSplit :: "real \<Rightarrow> string list \<Rightarrow> split list" where
  "calculateEqualSplit amount users =
     (let perUserAmount = toFixed2 (amount / of_nat (length users))
      in map (\<lambda>(index, userId).
                \<lparr>user = userId,
                 share =
                   (if index = 0 then
                      (let roundingDiff = amount - perUserAmount * of_nat (length users)
                       in if roundingDiff \<noteq> 0 then toFixed2 (perUserAmount + roundingDiff)
                          else perUserAmount)
                    else perUserAmount)\<rparr>)
             (enumerate 0 users))"

text \<open>
  The two loops of the second revision validate and accumulate entry by entry and throw
  at the first bad entry; the total is checked after the loop.
\<close>

fun percentageLoop ::
  "real \<Rightarrow> (string \<times> real) list \<Rightarrow> real \<Rightarrow> split list \<Rightarrow> error + (real \<times> split list)" where
  "percentageLoop amount [] totalPercentage splits = Inr (totalPercentage, splits)"
| "percentageLoop amount ((userId, percentage) # rest) totalPercentage splits =
     (if percentage < 0 then Inl (InvalidPercentageForUser userId)
      else percentageLoop amount rest (totalPercentage + percentage)
             (splits @ [\<lparr>user = userId, share = toFixed2 ((amount * percentage) / 100)\<rparr>]))"

definition calculatePercentageSplit :: "real \<Rightarrow> (string \<times> real) list \<Rightarrow> error + split list" where
  "calculatePercentageSplit amount splitDetails =
     (case percentageLoop amount splitDetails 0 [] of
        Inl e \<Rightarrow> Inl e
      | Inr (totalPercentage, splits) \<Rightarrow>
          if \<bar>totalPercentage - 100\<bar> > 1 / 100 then Inl (TotalPercentageIs totalPercentage)
          else Inr splits)"

fun exactLoop ::
  "(string \<times> real) list \<Rightarrow> real \<Rightarrow> split list \<Rightarrow> error + (real \<times> split list)" where
  "exactLoop [] totalShares splits = Inr (totalShares, splits)"
| "exactLoop ((userId, sh) # rest) totalShares splits =
     (if sh < 0 then Inl (InvalidShareForUser userId)
      else exactLoop rest (totalShares + sh) (splits @ [\<lparr>user = userId, share = sh\<rparr>]))"

definition validateExactSplit :: "real \<Rightarrow> (string \<times> real) list \<Rightarrow> error + split list" where
  "validateExactSplit amount splitDetails =
     (case exactLoop splitDetails 0 [] of
        Inl e \<Rightarrow> Inl e
      | Inr (totalShares, splits) \<Rightarrow>
          if \<bar>totalShares - amount\<bar> > 1 / 100 then Inl (TotalSharesIs totalShares amount)
          else Inr splits)"

definition calculateSplits_v2 ::
  "real \<Rightarrow> string \<Rightarrow> string list \<Rightarrow> (string \<times> real) list \<Rightarrow> error + split list" where
  "calculateSplits_v2 amount splitType users splitDetails =
     (if amount \<le> 0 then Inl InvalidExpenseAmount
      else if users = [] then Inl NoUsersProvided
      else if splitType = ''equal'' then Inr (calculateEqualSplit amount users)
      else if splitType = ''percentage'' then calculatePercentageSplit amount splitDetails
      else if splitType = ''exact'' then validateExactSplit amount splitDetails
      else Inl (InvalidSplitTypeNamed splitType))"

section \<open>The same code in double precision\<close>

text \<open>
  The definitions so far compute with exact real numbers. That is enough wherever a claim
  depends on the structure of the result only. Where a claim depends on the values
  computed, exact arithmetic is not what the code does: \<^verbatim>\<open>2.01 / 2\<close> is
  1.00499999999999989... in the engine and rounds to 1.00, and \<^verbatim>\<open>0.03 - 0.02\<close> is
  0.009999999999999998, which is below \<^verbatim>\<open>0.01\<close>. This section repeats the allocator and
  the simplifier with every operation performed as IEEE 754 binary64 performs it.

  A double is a real number with a significand of 53 bits. \<open>fl\<close> rounds a real number
  to the nearest double, a tie going to the even significand; \<open>expo x\<close> is the exponent of
  the leading bit of \<open>x\<close>. Overflow and subnormal numbers (magnitudes of 2^1024 and more,
  or below 2^-1022) are outside the model. The arithmetic operators of the code round
  the exact result, comparisons and \<^verbatim>\<open>Math.min\<close> and \<^verbatim>\<open>Math.abs\<close> are exact, a decimal
  literal is the double nearest to it, and what a function receives is a double.
\<close>

definition expo :: "real \<Rightarrow> int" where
  "expo x = (if 1 \<le> \<bar>x\<bar> then bitlen \<lfloor>\<bar>x\<bar>\<rfloor> - 1 else - bitlen (\<lceil>1 / \<bar>x\<bar>\<rceil> - 1))"

definition roundEven :: "real \<Rightarrow> int" where
  "roundEven m =
     (let f = \<lfloor>m\<rfloor>; r = m - of_int f
      in if r < 1 / 2 then f else if 1 / 2 < r then f + 1 else if even f then f else f + 1)"

definition fl :: "real \<Rightarrow> real" where
  "fl x = (if x = 0 then 0
           else of_int (roundEven (x / 2 powi (expo x - 52))) * 2 powi (expo x - 52))"

definition fadd :: "real \<Rightarrow> real \<Rightarrow> real" where
  "fadd x y = fl (x + y)"

definition fsub :: "real \<Rightarrow> real \<Rightarrow> real" where
  "fsub x y = fl (x - y)"

definition fmul :: "real \<Rightarrow> real \<Rightarrow> real" where
  "fmul x y = fl (x * y)"

definition fdiv :: "real \<Rightarrow> real \<Rightarrow> real" where
  "fdiv x y = fl (x / y)"

text \<open>
  \<^verbatim>\<open>x.toFixed(2)\<close> prints the integer number of hundredths nearest to the exact value
  of the double, the larger one on a tie, after the sign; \<^verbatim>\<open>parseFloat\<close> reads the
  string back as the nearest double.
\<close>

definition centsOf :: "real \<Rightarrow> int" where
  "centsOf x = (if x < 0 then - \<lfloor>(- x) * 100 + 1 / 2\<rfloor> else \<lfloor>x * 100 + 1 / 2\<rfloor>)"

definition toFixed2_f64 :: "real \<Rightarrow> real" where
  "toFixed2_f64 x = fl (of_int (centsOf x) / 100)"

text \<open>The test \<^verbatim>\<open>Math.abs(total - target) > 0.01\<close> of the allocator.\<close>

definition offTarget :: "real \<Rightarrow> real \<Rightarrow> bool" where
  "offTarget t target \<longleftrightarrow> \<bar>fsub t target\<bar> > fl (1 / 100)"

definition calculateSplits_v1_f64 ::
  "real \<Rightarrow> string \<Rightarrow> string list \<Rightarrow> (string \<times> real) list \<Rightarrow> error + split list" where
  "calculateSplits_v1_f64 amount splitType users splitDetails =
     (if amount \<le> 0 then Inl InvalidExpenseAmount
      else if users = [] then Inl NoUsersProvided
      else if splitType = ''equal'' then
        (let share = fdiv amount (of_nat (length users))
         in Inr (map (\<lambda>userId. \<lparr>user = userId, share = toFixed2_f64 share\<rparr>) users))
      else if splitType = ''percentage'' then
        (let totalPercentage = fold (\<lambda>val sum. fadd sum val) (map snd splitDetails) 0
         in if offTarget totalPercentage 100 then Inl TotalPercentageMustEqual100
            else Inr (map (\<lambda>(userId, percentage).
                             \<lparr>user = userId,
                              share = toFixed2_f64 (fmul (fdiv percentage 100) amount)\<rparr>)
                          splitDetails))
      else if splitType = ''exact'' then
        (let totalExact = fold (\<lambda>val sum. fadd sum val) (map snd splitDetails) 0
         in if offTarget totalExact amount then Inl TotalExactMustEqualAmount
            else Inr (map (\<lambda>(userId, val). \<lparr>user = userId, share = toFixed2_f64 val\<rparr>)
                          splitDetails))
      else Inl InvalidSplitType)"

definition calculateEqualSplit_f64 :: "real \<Rightarrow> string list \<Rightarrow> split list" where
  "calculateEqualSplit_f64 amount users =
     (let perUserAmount = toFixed2_f64 (fdiv amount (of_nat (length users)))
      in map (\<lambda>(index, userId).
                \<lparr>user = userId,
                 share =
                   (if index = 0 then
                      (let roundingDiff = fsub amount (fmul perUserAmount (of_nat (length users)))
                       in if roundingDiff \<noteq> 0 then toFixed2_f64 (fadd perUserAmount roundingDiff)
                          else perUserAmount)
                    else perUserAmount)\<rparr>)
             (enumerate 0 users))"

fun percentageLoop_f64 ::
  "real \<Rightarrow> (string \<times> real) list \<Rightarrow> real \<Rightarrow> split list \<Rightarrow> error + (real \<times> split list)" where
  "percentageLoop_f64 amount [] totalPercentage splits = Inr (totalPercentage, splits)"
| "percentageLoop_f64 amount ((userId, percentage) # rest) totalPercentage splits =
     (if percentage < 0 then Inl (InvalidPercentageForUser userId)
      else percentageLoop_f64 amount rest (fadd totalPercentage percentage)
             (splits @ [\<lparr>user = userId,
                         share = toFixed2_f64 (fdiv (fmul amount percentage) 100)\<rparr>]))"

definition calculatePercentageSplit_f64 ::
  "real \<Rightarrow> (string \<times> real) list \<Rightarrow> error + split list" where
  "calculatePercentageSplit_f64 amount splitDetails =
     (case percentageLoop_f64 amount splitDetails 0 [] of
        Inl e \<Rightarrow> Inl e
      | Inr (totalPercentage, splits) \<Rightarrow>
          if offTarget totalPercentage 100 then Inl (TotalPercentageIs totalPercentage)
          else Inr splits)"

fun exactLoop_f64 ::
  "(string \<times> real) list \<Rightarrow> real \<Rightarrow> split list \<Rightarrow> error + (real \<times> split list)" where
  "exactLoop_f64 [] totalShares splits = Inr (totalShares, splits)"
| "exactLoop_f64 ((userId, sh) # rest) totalShares splits =
     (if sh < 0 then Inl (InvalidShareForUser userId)
      else exactLoop_f64 rest (fadd totalShares sh) (splits @ [\<lparr>user = userId, share = sh\<rparr>]))"

definition validateExactSplit_f64 :: "real \<Rightarrow> (string \<times> real) list \<Rightarrow> error + split list" where
  "validateExactSplit_f64 amount splitDetails =
     (case exactLoop_f64 splitDetails 0 [] of
        Inl e \<Rightarrow> Inl e
      | Inr (totalShares, splits) \<Rightarrow>
          if offTarget totalShares amount then Inl (TotalSharesIs totalShares amount)
          else Inr splits)"

definition calculateSplits_v2_f64 ::
  "real \<Rightarrow> string \<Rightarrow> string list \<Rightarrow> (string \<times> real) list \<Rightarrow> error + split list" where
  "calculateSplits_v2_f64 amount splitType users splitDetails =
     (if amount \<le> 0 then Inl InvalidExpenseAmount
      else if users = [] then Inl NoUsersProvided
      else if splitType = ''equal'' then Inr (calculateEqualSplit_f64 amount users)
      else if splitType = ''percentage'' then calculatePercentageSplit_f64 amount splitDetails
      else if splitType = ''exact'' then validateExactSplit_f64 amount splitDetails
      else Inl (InvalidSplitTypeNamed splitType))"

section \<open>Persisted expenses\<close>

text \<open>
  A stored split carries the \<^verbatim>\<open>settled\<close> flag next to the user and the share; an expense
  has a payer, an amount and its splits. User identifiers are compared through
  \<^verbatim>\<open>toString()\<close> in the code, so they are strings here.
\<close>

record psplit = split +
  settled :: bool

record expense =
  paidBy :: string
  amount :: real
  splits :: "psplit list"

section \<open>Group balances: \<^verbatim>\<open>calculateGroupBalances\<close>\<close>

text \<open>
  The \<^verbatim>\<open>balances\<close> object is an association list in insertion order, which is the order
  \<^verbatim>\<open>for ... in\<close> visits string keys that are not array indices; \<open>AList.update\<close>
  overwrites an existing key in place and appends a new one, as a property assignment
  does. Reading a key that was never assigned gives \<^verbatim>\<open>undefined\<close>, and
  \<^verbatim>\<open>undefined + x\<close> is \<^verbatim>\<open>NaN\<close>: a payer or split member outside \<^verbatim>\<open>groupMembers\<close>
  ends with the balance \<open>NaN\<close>, and no exception is raised.
\<close>

datatype number = NaN | Num real

fun plusNum :: "number \<Rightarrow> real \<Rightarrow> number" where
  "plusNum NaN y = NaN"
| "plusNum (Num x) y = Num (x + y)"

fun minusNum :: "number \<Rightarrow> real \<Rightarrow> number" where
  "minusNum NaN y = NaN"
| "minusNum (Num x) y = Num (x - y)"

definition readKey :: "(string \<times> number) list \<Rightarrow> string \<Rightarrow> number" where
  "readKey balances k = (case map_of balances k of None \<Rightarrow> NaN | Some v \<Rightarrow> v)"

definition initBalances :: "string list \<Rightarrow> (string \<times> number) list" where
  "initBalances groupMembers =
     fold (\<lambda>member balances. AList.update member (Num 0) balances) groupMembers []"

definition applySplit :: "psplit \<Rightarrow> (string \<times> number) list \<Rightarrow> (string \<times> number) list" where
  "applySplit s balances =
     AList.update (user s) (minusNum (readKey balances (user s)) (share s)) balances"

definition applyExpense :: "expense \<Rightarrow> (string \<times> number) list \<Rightarrow> (string \<times> number) list" where
  "applyExpense e balances =
     fold applySplit (splits e)
       (AList.update (paidBy e) (plusNum (readKey balances (paidBy e)) (amount e)) balances)"

definition rawBalances :: "expense list \<Rightarrow> string list \<Rightarrow> (string \<times> number) list" where
  "rawBalances expenses groupMembers = fold applyExpense expenses (initBalances groupMembers)"

section \<open>Debt simplification: \<^verbatim>\<open>simplifyDebts\<close>\<close>

text \<open>
  A transaction is \<^verbatim>\<open>{ from, to, amount }\<close>. A creditor or debtor entry
  \<^verbatim>\<open>{ id, amount }\<close> is a pair. \<^verbatim>\<open>Array.prototype.sort\<close> is stable, and so is
  \<open>sort_key\<close>; the comparator \<^verbatim>\<open>b.amount - a.amount\<close> sorts by descending amount.
  The one loop that fills both arrays is written as one pass per array.
\<close>

record transaction =
  txFrom :: string
  txTo :: string
  txAmount :: real

definition creditorsOf :: "(string \<times> number) list \<Rightarrow> (string \<times> real) list" where
  "creditorsOf balances =
     concat (map (\<lambda>(userId, b).
                    case b of NaN \<Rightarrow> []
                    | Num x \<Rightarrow> (let balance = toFixed2 x
                               in if balance > 0 then [(userId, balance)] else []))
                 balances)"

definition debtorsOf :: "(string \<times> number) list \<Rightarrow> (string \<times> real) list" where
  "debtorsOf balances =
     concat (map (\<lambda>(userId, b).
                    case b of NaN \<Rightarrow> []
                    | Num x \<Rightarrow> (let balance = toFixed2 x
                               in if balance > 0 then []
                                  else if balance < 0 then [(userId, \<bar>balance\<bar>)] else []))
                 balances)"

definition sortDescending :: "(string \<times> real) list \<Rightarrow> (string \<times> real) list" where
  "sortDescending entries = sort_key (\<lambda>e. - snd e) entries"

text \<open>
  The \<^verbatim>\<open>while\<close> loop. Each round settles the smaller of the two head amounts, so at
  least one head reaches zero and is shifted out: the loop ends.
\<close>

function greedyLoop :: "(string \<times> real) list \<Rightarrow> (string \<times> real) list \<Rightarrow> transaction list" where
  "greedyLoop [] creditors = []"
| "greedyLoop ((dId, dAmount) # debtors) [] = []"
| "greedyLoop ((dId, dAmount) # debtors) ((cId, cAmount) # creditors) =
     (if min dAmount cAmount > 0
      then [\<lparr>txFrom = dId, txTo = cId, txAmount = toFixed2 (min dAmount cAmount)\<rparr>]
      else []) @
     greedyLoop
       (if dAmount - min dAmount cAmount < 1 / 100 then debtors
        else (dId, dAmount - min dAmount cAmount) # debtors)
       (if cAmount - min dAmount cAmount < 1 / 100 then creditors
        else (cId, cAmount - min dAmount cAmount) # creditors)"
  by pat_completeness auto
termination
  by (relation "measure (\<lambda>(debtors, creditors). length debtors + length creditors)")
     (auto simp: min_def)

definition simplifyDebts :: "(string \<times> number) list \<Rightarrow> transaction list" where
  "simplifyDebts balances =
     greedyLoop (sortDescending (debtorsOf balances)) (sortDescending (creditorsOf balances))"

definition calculateGroupBalances ::
  "expense list \<Rightarrow> string list \<Rightarrow> (string \<times> number) list \<times> transaction list" where
  "calculateGroupBalances expenses groupMembers =
     (let balances = rawBalances expenses groupMembers
      in (balances, simplifyDebts balances))"

section \<open>Payment plan: \<^verbatim>\<open>calculatePaymentPlan\<close>\<close>

text \<open>
  The first revision also exports a second simplifier. It does not round the balances,
  walks the two sorted arrays with the indices \<^verbatim>\<open>i\<close> and \<^verbatim>\<open>j\<close> (here: the remaining
  suffixes, whose heads carry the amounts updated in place) and moves on when the rest is
  at most 0.01.
\<close>

definition planCreditors :: "(string \<times> number) list \<Rightarrow> (string \<times> real) list" where
  "planCreditors balances =
     concat (map (\<lambda>(userId, b).
                    case b of NaN \<Rightarrow> []
                    | Num balance \<Rightarrow> if balance > 0 then [(userId, balance)] else [])
                 balances)"

definition planDebtors :: "(string \<times> number) list \<Rightarrow> (string \<times> real) list" where
  "planDebtors balances =
     concat (map (\<lambda>(userId, b).
                    case b of NaN \<Rightarrow> []
                    | Num balance \<Rightarrow> if balance > 0 then []
                                    else if balance < 0 then [(userId, \<bar>balance\<bar>)] else [])
                 balances)"

function paymentLoop :: "(string \<times> real) list \<Rightarrow> (string \<times> real) list \<Rightarrow> transaction list" where
  "paymentLoop [] debtors = []"
| "paymentLoop ((cId, cAmount) # creditors) [] = []"
| "paymentLoop ((cId, cAmount) # creditors) ((dId, dAmount) # debtors) =
     (if min cAmount dAmount > 0
      then [\<lparr>txFrom = dId, txTo = cId, txAmount = toFixed2 (min cAmount dAmount)\<rparr>]
      else []) @
     paymentLoop
       (if cAmount - min cAmount dAmount \<le> 1 / 100 then creditors
        else (cId, cAmount - min cAmount dAmount) # creditors)
       (if dAmount - min cAmount dAmount \<le> 1 / 100 then debtors
        else (dId, dAmount - min cAmount dAmount) # debtors)"
  by pat_completeness auto
termination
  by (relation "measure (\<lambda>(creditors, debtors). length creditors + length debtors)")
     (auto simp: min_def)

definition calculatePaymentPlan :: "(string \<times> number) list \<Rightarrow> transaction list" where
  "calculatePaymentPlan balances =
     paymentLoop (sortDescending (planCreditors balances)) (sortDescending (planDebtors balances))"

section \<open>Per-user figures\<close>

text \<open>
  \<^verbatim>\<open>calculateUserBalance\<close> adds the amounts of the expenses the user paid and the user's
  share (the first split of the user) of every expense.
\<close>

record userBalance =
  userOwes :: real
  userIsOwed :: real

definition calculateUserBalance :: "expense list \<Rightarrow> string \<Rightarrow> userBalance" where
  "calculateUserBalance expenses userId =
     fold (\<lambda>e acc.
             \<lparr>userOwes =
                (case find (\<lambda>s. user s = userId) (splits e) of
                   Some userSplit \<Rightarrow> userOwes acc + share userSplit
                 | None \<Rightarrow> userOwes acc),
              userIsOwed =
                (if paidBy e = userId then userIsOwed acc + amount e else userIsOwed acc)\<rparr>)
          expenses \<lparr>userOwes = 0, userIsOwed = 0\<rparr>"

text \<open>
  The controllers read the expenses from the database and then only compute; the
  computation is modelled as a function of what was read. \<^verbatim>\<open>getUserStats\<close> receives
  the expense list of each of the user's groups, \<^verbatim>\<open>getGroupBalanceSummary\<close> the expense
  list of one group. The counters \<^verbatim>\<open>totalGroups\<close> and \<^verbatim>\<open>totalExpenses\<close> are not money
  and are left out. \<^verbatim>\<open>formatValue\<close> is \<^verbatim>\<open>parseFloat(parseFloat(value).toFixed(2))\<close>.

  The first revision of \<^verbatim>\<open>getUserStats\<close>:
\<close>

record userStats =
  totalOwed :: real
  totalOwing :: real
  overallBalance :: real

definition getUserStats_v1 :: "expense list list \<Rightarrow> string \<Rightarrow> userStats" where
  "getUserStats_v1 groups userId =
     (let (totalOwed, totalOwing) =
            fold (\<lambda>groupExpenses (totalOwed, totalOwing).
                    let ub = calculateUserBalance groupExpenses userId
                    in (totalOwed + toFixed2 (userIsOwed ub),
                        totalOwing + toFixed2 (userOwes ub)))
                 groups (0, 0)
      in \<lparr>totalOwed = toFixed2 totalOwed,
          totalOwing = toFixed2 totalOwing,
          overallBalance = toFixed2 (totalOwed - totalOwing)\<rparr>)"

text \<open>The per-group figures shared by the second revision and the group summary.\<close>

definition youPaidOf :: "expense list \<Rightarrow> string \<Rightarrow> real" where
  "youPaidOf expenses userId =
     fold (\<lambda>e total. if paidBy e = userId then total + amount e else total) expenses 0"

definition othersYetToPayOf :: "expense list \<Rightarrow> string \<Rightarrow> real" where
  "othersYetToPayOf expenses userId =
     fold (\<lambda>e total.
             total + fold (\<lambda>s sum. if user s \<noteq> userId \<and> \<not> settled s then sum + share s else sum)
                          (splits e) 0)
          (filter (\<lambda>e. paidBy e = userId) expenses) 0"

definition youNeedToPayOf :: "expense list \<Rightarrow> string \<Rightarrow> real" where
  "youNeedToPayOf expenses userId =
     fold (\<lambda>e total.
             total + (case find (\<lambda>s. user s = userId \<and> \<not> settled s) (splits e) of
                        Some userSplit \<Rightarrow> share userSplit
                      | None \<Rightarrow> 0))
          (filter (\<lambda>e. paidBy e \<noteq> userId) expenses) 0"

text \<open>
  In the second revision of \<^verbatim>\<open>getUserStats\<close> the settled amount of a group takes, from
  each expense the user paid that has a settled split of somebody else, the first such
  split; and the running value is assigned, not added to.
\<close>

definition groupOthersPaidYou :: "expense list \<Rightarrow> string \<Rightarrow> real" where
  "groupOthersPaidYou groupExpenses userId =
     fold (\<lambda>e total.
             total + (case find (\<lambda>s. user s \<noteq> userId \<and> settled s) (splits e) of
                        Some userSplit \<Rightarrow> share userSplit
                      | None \<Rightarrow> 0))
          (filter (\<lambda>e. paidBy e = userId \<and> list_ex (\<lambda>s. user s \<noteq> userId \<and> settled s) (splits e))
                  groupExpenses) 0"

record statsTotals =
  totalYourShare :: real
  totalYouPaid :: real
  totalOthersPaidYou :: real
  totalYouNeedToPay :: real
  totalOthersYetToPay :: real

definition statsStep :: "string \<Rightarrow> expense list \<Rightarrow> statsTotals \<Rightarrow> statsTotals" where
  "statsStep userId groupExpenses t =
     (if groupExpenses = [] then t
      else \<lparr>totalYourShare = totalYourShare t + userOwes (calculateUserBalance groupExpenses userId),
            totalYouPaid = totalYouPaid t + youPaidOf groupExpenses userId,
            totalOthersPaidYou = groupOthersPaidYou groupExpenses userId,
            totalYouNeedToPay = totalYouNeedToPay t + youNeedToPayOf groupExpenses userId,
            totalOthersYetToPay = totalOthersYetToPay t + othersYetToPayOf groupExpenses userId\<rparr>)"

record userStatsDetailed = userStats +
  totalPaid :: real
  othersPaidYou :: real
  youNeedToPay :: real
  othersYetToPay :: real

definition getUserStats_v2 :: "expense list list \<Rightarrow> string \<Rightarrow> userStatsDetailed" where
  "getUserStats_v2 groups userId =
     (let t = fold (statsStep userId) groups
                \<lparr>totalYourShare = 0, totalYouPaid = 0, totalOthersPaidYou = 0,
                 totalYouNeedToPay = 0, totalOthersYetToPay = 0\<rparr>
      in \<lparr>totalOwed = toFixed2 (totalOthersYetToPay t),
          totalOwing = toFixed2 (totalYourShare t),
          overallBalance = toFixed2 (totalOthersYetToPay t - totalYouNeedToPay t),
          totalPaid = toFixed2 (totalYouPaid t),
          othersPaidYou = toFixed2 (totalOthersPaidYou t),
          youNeedToPay = toFixed2 (totalYouNeedToPay t),
          othersYetToPay = toFixed2 (totalOthersYetToPay t)\<rparr>)"

text \<open>
  \<^verbatim>\<open>getGroupBalanceSummary\<close> of \<^verbatim>\<open>groupController.js\<close>, after the group was found and
  the caller was checked to be a member. Its settled amount has two parts: the caller's
  own first settled share in each expense somebody else paid, and every settled share of
  somebody else in each expense the caller paid.
\<close>

definition othersPaidYouSettled :: "expense list \<Rightarrow> string \<Rightarrow> real" where
  "othersPaidYouSettled expenses userId =
     fold (\<lambda>e total.
             total + (case find (\<lambda>s. user s = userId \<and> settled s) (splits e) of
                        Some userSplit \<Rightarrow> share userSplit
                      | None \<Rightarrow> 0))
          (filter (\<lambda>e. paidBy e \<noteq> userId \<and> list_ex (\<lambda>s. user s = userId \<and> settled s) (splits e))
                  expenses) 0"

definition youPaidOthersSettled :: "expense list \<Rightarrow> string \<Rightarrow> real" where
  "youPaidOthersSettled expenses userId =
     fold (\<lambda>e total.
             total + fold (\<lambda>s sum. if user s \<noteq> userId \<and> settled s then sum + share s else sum)
                          (splits e) 0)
          (filter (\<lambda>e. paidBy e = userId) expenses) 0"

record groupSummary =
  yourShare :: real
  youPaid :: real
  summaryOthersPaidYou :: real
  summaryYouNeedToPay :: real
  summaryOthersYetToPay :: real

definition getGroupBalanceSummary :: "expense list \<Rightarrow> string \<Rightarrow> groupSummary" where
  "getGroupBalanceSummary expenses userId =
     (if expenses = [] then
        \<lparr>yourShare = 0, youPaid = 0, summaryOthersPaidYou = 0,
         summaryYouNeedToPay = 0, summaryOthersYetToPay = 0\<rparr>
      else
        \<lparr>yourShare = toFixed2 (userOwes (calculateUserBalance expenses userId)),
         youPaid = toFixed2 (youPaidOf expenses userId),
         summaryOthersPaidYou =
           toFixed2 (othersPaidYouSettled expenses userId + youPaidOthersSettled expenses userId),
         summaryYouNeedToPay = toFixed2 (youNeedToPayOf expenses userId),
         summaryOthersYetToPay = toFixed2 (othersYetToPayOf expenses userId)\<rparr>)"

section \<open>Reading a settlement plan\<close>

text \<open>
  What a participant receives and pays under a list of transactions, and the difference
  of the two. \<open>credit\<close> is the amount a creditor or debtor list holds for a participant.
\<close>

definition received :: "transaction list \<Rightarrow> string \<Rightarrow> real" where
  "received ts X = sum_list (map txAmount (filter (\<lambda>t. txTo t = X) ts))"

definition paid :: "transaction list \<Rightarrow> string \<Rightarrow> real" where
  "paid ts X = sum_list (map txAmount (filter (\<lambda>t. txFrom t = X) ts))"

definition netFlow :: "transaction list \<Rightarrow> string \<Rightarrow> real" where
  "netFlow ts X = received ts X - paid ts X"

definition credit :: "string \<Rightarrow> (string \<times> real) list \<Rightarrow> real" where
  "credit X entries = sum_list (map snd (filter (\<lambda>e. fst e = X) entries))"

text \<open>A balances object all of whose values are numbers.\<close>

definition numeric :: "(string \<times> real) list \<Rightarrow> (string \<times> number) list" where
  "numeric balances = map (\<lambda>(userId, x). (userId, Num x)) balances"

text \<open>
  The raw net balance in the words of the specification: what the participant paid, minus
  the participant's shares. \<open>withSettled\<close> replaces the settled flags of an expense.
\<close>

definition specRawBalance :: "expense list \<Rightarrow> string \<Rightarrow> real" where
  "specRawBalance expenses X =
     sum_list (map amount (filter (\<lambda>e. paidBy e = X) expenses))
     - sum_list (map (\<lambda>e. sum_list (map share (filter (\<lambda>s. user s = X) (splits e)))) expenses)"

definition withSettled :: "(psplit \<Rightarrow> bool) \<Rightarrow> expense \<Rightarrow> expense" where
  "withSettled f e = e\<lparr>splits := map (\<lambda>s. s\<lparr>settled := f s\<rparr>) (splits e)\<rparr>"

text \<open>
  The per-user figures in the words of the specification, as plain sums: the user's share
  of every expense, what the user paid, what others still owe the user on expenses the
  user paid, what the user still owes on expenses of others, what others have settled
  back to the user as payer, and what the user has settled as a non-payer.
\<close>

definition firstShare :: "(psplit \<Rightarrow> bool) \<Rightarrow> expense \<Rightarrow> real" where
  "firstShare P e = (case find P (splits e) of Some s \<Rightarrow> share s | None \<Rightarrow> 0)"

definition sharesWhere :: "(psplit \<Rightarrow> bool) \<Rightarrow> expense \<Rightarrow> real" where
  "sharesWhere P e = sum_list (map share (filter P (splits e)))"

definition specYourShare :: "expense list \<Rightarrow> string \<Rightarrow> real" where
  "specYourShare expenses userId = sum_list (map (firstShare (\<lambda>s. user s = userId)) expenses)"

definition specYouPaid :: "expense list \<Rightarrow> string \<Rightarrow> real" where
  "specYouPaid expenses userId = sum_list (map amount (filter (\<lambda>e. paidBy e = userId) expenses))"

definition specOthersYetToPay :: "expense list \<Rightarrow> string \<Rightarrow> real" where
  "specOthersYetToPay expenses userId =
     sum_list (map (sharesWhere (\<lambda>s. user s \<noteq> userId \<and> \<not> settled s))
                   (filter (\<lambda>e. paidBy e = userId) expenses))"

definition specYouNeedToPay :: "expense list \<Rightarrow> string \<Rightarrow> real" where
  "specYouNeedToPay expenses userId =
     sum_list (map (firstShare (\<lambda>s. user s = userId \<and> \<not> settled s))
                   (filter (\<lambda>e. paidBy e \<noteq> userId) expenses))"

definition specOthersSettled :: "expense list \<Rightarrow> string \<Rightarrow> real" where
  "specOthersSettled expenses userId =
     sum_list (map (sharesWhere (\<lambda>s. user s \<noteq> userId \<and> settled s))
                   (filter (\<lambda>e. paidBy e = userId) expenses))"

definition specOwnSettled :: "expense list \<Rightarrow> string \<Rightarrow> real" where
  "specOwnSettled expenses userId =
     sum_list (map (firstShare (\<lambda>s. user s = userId \<and> settled s))
                   (filter (\<lambda>e. paidBy e \<noteq> userId) expenses))"

text \<open>Entries that are positive whole numbers of cents, as the simplifier builds them.\<close>

definition wholePositive :: "(string \<times> real) list \<Rightarrow> bool" where
  "wholePositive es \<longleftrightarrow> (\<forall>e \<in> set es. cents (snd e) \<and> 0 < snd e)"

section \<open>The simplifier in double precision\<close>

definition creditorsOf_f64 :: "(string \<times> number) list \<Rightarrow> (string \<times> real) list" where
  "creditorsOf_f64 balances =
     concat (map (\<lambda>(userId, b).
                    case b of NaN \<Rightarrow> []
                    | Num x \<Rightarrow> (let balance = toFixed2_f64 x
                               in if balance > 0 then [(userId, balance)] else []))
                 balances)"

definition debtorsOf_f64 :: "(string \<times> number) list \<Rightarrow> (string \<times> real) list" where
  "debtorsOf_f64 balances =
     concat (map (\<lambda>(userId, b).
                    case b of NaN \<Rightarrow> []
                    | Num x \<Rightarrow> (let balance = toFixed2_f64 x
                               in if balance > 0 then []
                                  else if balance < 0 then [(userId, \<bar>balance\<bar>)] else []))
                 balances)"

function greedyLoop_f64 ::
  "(string \<times> real) list \<Rightarrow> (string \<times> real) list \<Rightarrow> transaction list" where
  "greedyLoop_f64 [] creditors = []"
| "greedyLoop_f64 ((dId, dAmount) # debtors) [] = []"
| "greedyLoop_f64 ((dId, dAmount) # debtors) ((cId, cAmount) # creditors) =
     (if min dAmount cAmount > 0
      then [\<lparr>txFrom = dId, txTo = cId, txAmount = toFixed2_f64 (min dAmount cAmount)\<rparr>]
      else []) @
     greedyLoop_f64
       (if fsub dAmount (min dAmount cAmount) < fl (1 / 100) then debtors
        else (dId, fsub dAmount (min dAmount cAmount)) # debtors)
       (if fsub cAmount (min dAmount cAmount) < fl (1 / 100) then creditors
        else (cId, fsub cAmount (min dAmount cAmount)) # creditors)"
  by pat_completeness auto
termination
proof (relation "measure (\<lambda>(debtors, creditors). length debtors + length creditors)")
  fix dId :: string and dAmount cAmount :: real and debtors creditors :: "(string \<times> real) list"
    and cId :: string
  have z: "(0::real) < fl (1 / 100)" by code_simp
  have "fsub dAmount (min dAmount cAmount) = 0 \<or> fsub cAmount (min dAmount cAmount) = 0"
    by (auto simp: fsub_def fl_def min_def)
  with z show
    "((if fsub dAmount (min dAmount cAmount) < fl (1 / 100) then debtors
       else (dId, fsub dAmount (min dAmount cAmount)) # debtors,
       if fsub cAmount (min dAmount cAmount) < fl (1 / 100) then creditors
       else (cId, fsub cAmount (min dAmount cAmount)) # creditors),
      (dId, dAmount) # debtors, (cId, cAmount) # creditors)
     \<in> measure (\<lambda>(debtors, creditors). length debtors + length creditors)"
    by auto
qed simp

definition simplifyDebts_f64 :: "(string \<times> number) list \<Rightarrow> transaction list" where
  "simplifyDebts_f64 balances =
     greedyLoop_f64 (sortDescending (debtorsOf_f64 balances))
                    (sortDescending (creditorsOf_f64 balances))"

text \<open>
  Entries that are positive whole numbers of at most 10^12: on them every subtraction of
  the loop is exact.
\<close>

definition wholeEntries :: "(string \<times> real) list \<Rightarrow> bool" where
  "wholeEntries es \<longleftrightarrow> (\<forall>e \<in> set es. snd e \<in> \<int> \<and> 0 < snd e \<and> snd e \<le> 10 ^ 12)"

section \<open>Properties of the rounding\<close>

lemma toFixed2_nonneg_eq: "0 \<le> x \<Longrightarrow> toFixed2 x = of_int \<lfloor>x * 100 + 1 / 2\<rfloor> / 100"
  by (simp add: toFixed2_def)

lemma toFixed2_minus: "toFixed2 (- x) = - toFixed2 x"
  by (cases "x = 0") (auto simp: toFixed2_def)

lemma toFixed2_error_nonneg:
  assumes "0 \<le> x" shows "\<bar>toFixed2 x - x\<bar> \<le> 1 / 200"
proof -
  let ?n = "\<lfloor>x * 100 + 1 / 2\<rfloor>"
  have lo: "of_int ?n \<le> x * 100 + 1 / 2" by (rule of_int_floor_le)
  have hi: "x * 100 + 1 / 2 < of_int ?n + 1" using floor_correct[of "x * 100 + 1 / 2"] by simp
  have "toFixed2 x = of_int ?n / 100" using assms by (rule toFixed2_nonneg_eq)
  then show ?thesis using lo hi by linarith
qed

lemma toFixed2_error: "\<bar>toFixed2 x - x\<bar> \<le> 1 / 200"
proof (cases "0 \<le> x")
  case True then show ?thesis by (rule toFixed2_error_nonneg)
next
  case False
  then have "0 \<le> - x" by simp
  then have "\<bar>toFixed2 (- x) - (- x)\<bar> \<le> 1 / 200" by (rule toFixed2_error_nonneg)
  then show ?thesis unfolding toFixed2_minus by linarith
qed

lemma cents_iff: "cents x \<longleftrightarrow> (\<exists>k::int. x = of_int k / 100)"
proof
  assume "cents x"
  then have "of_int \<lfloor>x * 100\<rfloor> = x * 100" by (simp only: cents_def)
  then have "x = of_int \<lfloor>x * 100\<rfloor> / 100" by linarith
  then show "\<exists>k::int. x = of_int k / 100" ..
next
  assume "\<exists>k::int. x = of_int k / 100"
  then obtain k :: int where "x = of_int k / 100" ..
  then show "cents x" by (simp add: cents_def)
qed

lemma cents_toFixed2: "cents (toFixed2 x)"
proof -
  have "\<exists>k::int. toFixed2 x = of_int k / 100"
  proof (cases "x < 0")
    case True
    then have "toFixed2 x = of_int (- \<lfloor>(- x) * 100 + 1 / 2\<rfloor>) / 100"
      by (simp add: toFixed2_def)
    then show ?thesis ..
  next
    case False
    then have "toFixed2 x = of_int \<lfloor>x * 100 + 1 / 2\<rfloor> / 100"
      by (simp add: toFixed2_def)
    then show ?thesis ..
  qed
  then show ?thesis by (simp only: cents_iff)
qed

lemma toFixed2_cents: assumes "cents x" shows "toFixed2 x = x"
proof -
  from assms obtain k :: int where k: "x = of_int k / 100" by (auto simp: cents_iff)
  have 1: "\<lfloor>(of_int k :: real) + 1 / 2\<rfloor> = k" by (simp add: floor_unique)
  have 2: "\<lfloor>- (of_int k :: real) + 1 / 2\<rfloor> = - k"
    using floor_unique[of "-k" "- (of_int k :: real) + 1 / 2"] by simp
  show ?thesis using 1 2 by (simp add: toFixed2_def k)
qed

lemma cents_add: assumes "cents x" "cents y" shows "cents (x + y)"
proof -
  from assms obtain k l :: int where "x = of_int k / 100" "y = of_int l / 100"
    by (auto simp: cents_iff)
  then have "x + y = of_int (k + l) / 100" by (simp add: add_divide_distrib)
  then show ?thesis unfolding cents_iff ..
qed

lemma cents_minus: assumes "cents x" shows "cents (- x)"
proof -
  from assms obtain k :: int where "x = of_int k / 100" by (auto simp: cents_iff)
  then have "- x = of_int (- k) / 100" by simp
  then show ?thesis unfolding cents_iff ..
qed

lemma cents_diff: "cents x \<Longrightarrow> cents y \<Longrightarrow> cents (x - y)"
  using cents_add[of x "- y"] cents_minus[of y] by simp

lemma cents_mult_nat: assumes "cents x" shows "cents (x * of_nat n)"
proof -
  from assms obtain k :: int where "x = of_int k / 100" by (auto simp: cents_iff)
  then have "x * of_nat n = of_int (k * int n) / 100" by simp
  then show ?thesis unfolding cents_iff ..
qed

lemma cents_0: "cents 0" by (simp add: cents_def)

lemma toFixed2_nonneg: "0 \<le> x \<Longrightarrow> 0 \<le> toFixed2 x"
  by (simp add: toFixed2_def)

lemma cents_pos: assumes "cents x" "0 < x" shows "1 / 100 \<le> x"
proof -
  from assms obtain k :: int where k: "x = of_int k / 100" by (auto simp: cents_iff)
  with \<open>0 < x\<close> have "0 < k" by simp
  then have "1 \<le> k" by simp
  then have "(1::real) \<le> of_int k" by simp
  then show ?thesis by (simp add: k)
qed

lemma cents_small: "cents x \<Longrightarrow> 0 \<le> x \<Longrightarrow> x < 1 / 100 \<Longrightarrow> x = 0"
  using cents_pos[of x] by force

lemma toFixed2_zero_iff: "toFixed2 x = 0 \<longleftrightarrow> \<bar>x\<bar> < 1 / 200"
proof -
  have nn: "toFixed2 y = 0 \<longleftrightarrow> y < 1 / 200" if "0 \<le> y" for y
  proof -
    have "toFixed2 y = 0 \<longleftrightarrow> \<lfloor>y * 100 + 1 / 2\<rfloor> = 0" using that by (simp add: toFixed2_def)
    also have "\<dots> \<longleftrightarrow> y < 1 / 200" using that by (auto simp: floor_eq_iff)
    finally show ?thesis .
  qed
  show ?thesis
  proof (cases "0 \<le> x")
    case True then show ?thesis using nn[of x] by simp
  next
    case False
    then have "toFixed2 (- x) = 0 \<longleftrightarrow> - x < 1 / 200" using nn[of "- x"] by simp
    then show ?thesis using False by (simp add: toFixed2_minus)
  qed
qed

section \<open>Properties of the double precision rounding\<close>

lemma expo_bounds:
  assumes "x \<noteq> 0"
  shows "2 powi (expo x) \<le> \<bar>x\<bar>" and "\<bar>x\<bar> < 2 powi (expo x + 1)"
proof -
  let ?y = "\<bar>x\<bar>"
  have ypos: "0 < ?y" using assms by simp
  show "2 powi (expo x) \<le> \<bar>x\<bar>" and "\<bar>x\<bar> < 2 powi (expo x + 1)"
  proof (atomize (full), cases "1 \<le> ?y")
    case True
    let ?z = "\<lfloor>?y\<rfloor>"
    have z: "0 < ?z" using True by simp
    have e: "expo x = bitlen ?z - 1" using True by (simp add: expo_def)
    have bl: "1 \<le> bitlen ?z" using z bitlen_eq_zero_iff[of ?z] bitlen_nonneg[of ?z] by linarith
    from bitlen_bounds[OF z]
    have lo: "2 ^ nat (bitlen ?z - 1) \<le> ?z" and hi: "?z < 2 ^ nat (bitlen ?z)" by simp_all
    have "(2::real) powi (expo x) = 2 ^ nat (bitlen ?z - 1)"
      using bl by (simp add: e power_int_def)
    also have "\<dots> = of_int (2 ^ nat (bitlen ?z - 1))" by simp
    also have "\<dots> \<le> of_int ?z" using lo by (simp only: of_int_le_iff)
    also have "\<dots> \<le> ?y" by (rule of_int_floor_le)
    finally have 1: "2 powi (expo x) \<le> ?y" .
    from hi have "?z + 1 \<le> 2 ^ nat (bitlen ?z)" by simp
    then have "of_int (?z + 1) \<le> (of_int (2 ^ nat (bitlen ?z)) :: real)"
      by (simp only: of_int_le_iff)
    then have "of_int ?z + 1 \<le> (2::real) ^ nat (bitlen ?z)" by simp
    moreover have "?y < of_int ?z + 1" by linarith
    ultimately have "?y < (2::real) ^ nat (bitlen ?z)" by linarith
    moreover have "(2::real) powi (expo x + 1) = 2 ^ nat (bitlen ?z)"
      using bl by (simp add: e power_int_def)
    ultimately have 2: "?y < 2 powi (expo x + 1)" by simp
    from 1 2 show "2 powi (expo x) \<le> \<bar>x\<bar> \<and> \<bar>x\<bar> < 2 powi (expo x + 1)" by simp
  next
    case False
    then have y1: "?y < 1" by simp
    let ?w = "\<lceil>1 / ?y\<rceil> - 1"
    have inv: "1 < 1 / ?y" using ypos y1 by simp
    then have "2 \<le> \<lceil>1 / ?y\<rceil>" by linarith
    then have w: "0 < ?w" by simp
    have e: "expo x = - bitlen ?w" using False by (simp add: expo_def)
    have bl: "1 \<le> bitlen ?w" using w bitlen_eq_zero_iff[of ?w] bitlen_nonneg[of ?w] by linarith
    from bitlen_bounds[OF w]
    have lo: "2 ^ nat (bitlen ?w - 1) \<le> ?w" and hi: "?w < 2 ^ nat (bitlen ?w)" by simp_all
    have p1: "(2::real) powi (expo x) = 1 / 2 ^ nat (bitlen ?w)"
      using bl by (simp add: e power_int_def field_simps)
    have p2: "(2::real) powi (expo x + 1) = 1 / 2 ^ nat (bitlen ?w - 1)"
    proof -
      define n where "n = nat (bitlen ?w - 1)"
      have "expo x + 1 = - int n" using bl by (simp add: e n_def)
      then have "(2::real) powi (expo x + 1) = 1 / 2 ^ n"
        by (simp add: power_int_minus divide_inverse)
      then show ?thesis by (simp only: n_def)
    qed
    from hi have "\<lceil>1 / ?y\<rceil> \<le> 2 ^ nat (bitlen ?w)" by simp
    then have "of_int \<lceil>1 / ?y\<rceil> \<le> (of_int (2 ^ nat (bitlen ?w)) :: real)"
      by (simp only: of_int_le_iff)
    then have "of_int \<lceil>1 / ?y\<rceil> \<le> (2::real) ^ nat (bitlen ?w)" by simp
    moreover have "1 / ?y \<le> of_int \<lceil>1 / ?y\<rceil>" by (rule le_of_int_ceiling)
    ultimately have "1 / ?y \<le> 2 ^ nat (bitlen ?w)" by linarith
    then have 1: "1 / 2 ^ nat (bitlen ?w) \<le> ?y"
      using ypos by (simp add: field_simps)
    have "(of_int (2 ^ nat (bitlen ?w - 1)) :: real) \<le> of_int ?w"
      using lo by (simp only: of_int_le_iff)
    then have "(2::real) ^ nat (bitlen ?w - 1) \<le> of_int \<lceil>1 / ?y\<rceil> - 1" by simp
    moreover have "of_int \<lceil>1 / ?y\<rceil> - 1 < 1 / ?y" by linarith
    ultimately have "2 ^ nat (bitlen ?w - 1) < 1 / ?y" by linarith
    then have 2: "?y < 1 / 2 ^ nat (bitlen ?w - 1)"
      using ypos by (simp add: field_simps)
    from 1 2 show "2 powi (expo x) \<le> \<bar>x\<bar> \<and> \<bar>x\<bar> < 2 powi (expo x + 1)"
      by (simp only: p1 p2)
  qed
qed

lemma roundEven_error: "\<bar>of_int (roundEven m) - m\<bar> \<le> 1 / 2"
proof -
  have "of_int \<lfloor>m\<rfloor> \<le> m" "m < of_int \<lfloor>m\<rfloor> + 1" by linarith+
  then show ?thesis by (auto simp: roundEven_def Let_def)
qed

lemma roundEven_of_int: "roundEven (of_int k) = k"
  by (simp add: roundEven_def)

lemma fl_0: "fl 0 = 0" by (simp add: fl_def)

lemma fl_error: "\<bar>fl x - x\<bar> \<le> \<bar>x\<bar> / 2 ^ 53"
proof (cases "x = 0")
  case True then show ?thesis by (simp add: fl_0)
next
  case False
  let ?u = "(2::real) powi (expo x - 52)"
  have u: "0 < ?u" by simp
  have ue: "?u * 2 ^ 52 = 2 powi (expo x)"
    by (simp add: power_int_diff)
  have "fl x - x = (of_int (roundEven (x / ?u)) - x / ?u) * ?u"
    using False u by (simp add: fl_def field_simps)
  then have "\<bar>fl x - x\<bar> = \<bar>of_int (roundEven (x / ?u)) - x / ?u\<bar> * ?u"
    using u by (simp add: abs_mult)
  also have "\<dots> \<le> (1 / 2) * ?u"
    using roundEven_error[of "x / ?u"] u by (intro mult_right_mono) simp_all
  also have "\<dots> = 2 powi (expo x) / 2 ^ 53"
    using ue by (simp add: field_simps)
  also have "\<dots> \<le> \<bar>x\<bar> / 2 ^ 53"
    using expo_bounds(1)[OF False] by (simp add: divide_right_mono)
  finally show ?thesis .
qed

lemma fl_of_int:
  assumes "\<bar>m\<bar> < 2 ^ 53"
  shows "fl (of_int m) = of_int m"
proof (cases "m = 0")
  case True then show ?thesis by (simp add: fl_0)
next
  case False
  let ?x = "of_int m :: real"
  have x0: "?x \<noteq> 0" using False by simp
  have "2 powi (expo ?x) \<le> \<bar>?x\<bar>" by (rule expo_bounds(1)[OF x0])
  also have "\<bar>?x\<bar> < 2 ^ 53"
  proof -
    have "(of_int \<bar>m\<bar> :: real) < of_int (2 ^ 53)" using assms by (simp only: of_int_less_iff)
    then show ?thesis by simp
  qed
  finally have "(2::real) powi (expo ?x) < 2 powi 53" by simp
  then have e: "expo ?x < 53" by (intro power_int_le_imp_less_exp[of 2]) simp_all
  define j where "j = nat (52 - expo ?x)"
  have j: "expo ?x - 52 = - int j" using e by (simp add: j_def)
  have "?x / 2 powi (expo ?x - 52) = of_int (m * 2 ^ j)"
    by (simp add: j power_int_minus field_simps)
  then have "roundEven (?x / 2 powi (expo ?x - 52)) = m * 2 ^ j"
    by (simp only: roundEven_of_int)
  then have "fl ?x = of_int (m * 2 ^ j) * 2 powi (expo ?x - 52)"
    using x0 by (simp add: fl_def)
  also have "\<dots> = ?x" by (simp add: j power_int_minus field_simps)
  finally show ?thesis .
qed

lemma fl_pos: assumes "0 < x" shows "0 < fl x"
proof -
  have "\<bar>fl x - x\<bar> \<le> x / 2 ^ 53" using fl_error[of x] assms by simp
  moreover have "x / 2 ^ 53 < x" using assms by simp
  ultimately show ?thesis by linarith
qed

lemma fl_nonneg: "0 \<le> x \<Longrightarrow> 0 \<le> fl x"
  using fl_pos[of x] by (cases "x = 0") (simp_all add: fl_0)

lemma fl_eq_0_iff: "fl x = 0 \<longleftrightarrow> x = 0"
proof
  assume z: "fl x = 0"
  have "\<bar>fl x - x\<bar> \<le> \<bar>x\<bar> / 2 ^ 53" by (rule fl_error)
  then have "\<bar>x\<bar> \<le> \<bar>x\<bar> / 2 ^ 53" using z by simp
  then show "x = 0" by (simp add: field_simps)
qed (simp add: fl_0)

lemma centsOf_near:
  assumes "\<bar>x - of_int K / 100\<bar> < 1 / 200"
  shows "centsOf x = K"
proof (cases "x < 0")
  case True
  have m: "(of_int (- K) :: real) = - of_int K" by simp
  have "of_int (- K) \<le> (- x) * 100 + 1 / 2" "(- x) * 100 + 1 / 2 < of_int (- K) + 1"
    unfolding m using assms by linarith+
  then have "\<lfloor>(- x) * 100 + 1 / 2\<rfloor> = - K" by (rule floor_unique)
  then show ?thesis using True by (simp add: centsOf_def)
next
  case False
  have "of_int K \<le> x * 100 + 1 / 2" "x * 100 + 1 / 2 < of_int K + 1"
    using assms by linarith+
  then have "\<lfloor>x * 100 + 1 / 2\<rfloor> = K" by (rule floor_unique)
  then show ?thesis using False by (simp add: centsOf_def)
qed

lemma centsOf_fl_cents:
  assumes "\<bar>K\<bar> \<le> 2 ^ 50"
  shows "centsOf (fl (of_int K / 100)) = K"
proof (rule centsOf_near)
  have "(of_int \<bar>K\<bar> :: real) \<le> of_int (2 ^ 50)" using assms by (simp only: of_int_le_iff)
  then have b: "\<bar>of_int K :: real\<bar> \<le> 2 ^ 50" by simp
  have "\<bar>fl (of_int K / 100) - of_int K / 100\<bar> \<le> \<bar>of_int K / 100\<bar> / 2 ^ 53"
    by (rule fl_error)
  also have "\<dots> \<le> (2 ^ 50 / 100) / 2 ^ 53" using b by (simp add: divide_right_mono)
  also have "\<dots> < 1 / 200" by simp
  finally show "\<bar>fl (of_int K / 100) - of_int K / 100\<bar> < 1 / 200" .
qed

lemma centsOf_toFixed2_f64:
  "\<bar>centsOf x\<bar> \<le> 2 ^ 50 \<Longrightarrow> centsOf (toFixed2_f64 x) = centsOf x"
  by (simp add: toFixed2_f64_def centsOf_fl_cents)

lemma centsOf_nonneg: "0 \<le> x \<Longrightarrow> 0 \<le> centsOf x"
  by (simp add: centsOf_def)

lemma centsOf_le: "0 \<le> x \<Longrightarrow> of_int (centsOf x) \<le> x * 100 + 1 / 2"
  by (simp add: centsOf_def)


lemma fl_error_small:
  assumes "\<bar>x\<bar> \<le> 50000000000"
  shows "\<bar>fl x - x\<bar> \<le> 6 / 1000000"
proof -
  have "\<bar>fl x - x\<bar> \<le> \<bar>x\<bar> / 2 ^ 53" by (rule fl_error)
  also have "\<dots> \<le> 50000000000 / 2 ^ 53" using assms by (rule divide_right_mono) simp
  also have "\<dots> \<le> 6 / 1000000" by simp
  finally show ?thesis .
qed

lemma fl_times_error:
  assumes "0 < N" "0 \<le> x" "x * N \<le> 50000000000"
  shows "\<bar>fl x * N - x * N\<bar> \<le> 6 / 1000000"
proof -
  have "fl x * N - x * N = (fl x - x) * N" by (simp add: algebra_simps)
  then have "\<bar>fl x * N - x * N\<bar> = \<bar>fl x - x\<bar> * N" using assms(1) by (simp add: abs_mult)
  also have "\<dots> \<le> (\<bar>x\<bar> / 2 ^ 53) * N"
    using fl_error[of x] assms(1) by (intro mult_right_mono) simp_all
  also have "\<dots> = (x * N) / 2 ^ 53" using assms(2) by simp
  also have "\<dots> \<le> 50000000000 / 2 ^ 53" using assms(3) by (rule divide_right_mono) simp
  also have "\<dots> \<le> 6 / 1000000" by simp
  finally show ?thesis .
qed

lemma equal_split_numbers:
  fixes A :: int and n :: nat
  assumes A: "0 < A" "A \<le> 1000000000000" and n: "0 < n" "n \<le> 1000000"
  defines "a \<equiv> fl (of_int A / 100)"
  defines "p \<equiv> toFixed2_f64 (fdiv a (of_nat n))"
  defines "d \<equiv> fsub a (fmul p (of_nat n))"
  defines "first \<equiv> (if d \<noteq> 0 then toFixed2_f64 (fadd p d) else p)"
  shows "centsOf first + (int n - 1) * centsOf p = A"
    and "first = fl (of_int (centsOf first) / 100)"
    and "p = fl (of_int (centsOf p) / 100)"
    and "0 < a"
proof -
  define N :: real where "N = of_nat n"
  define rA :: real where "rA = of_int A"
  define q where "q = fl (a / N)"
  define k where "k = centsOf q"
  define rk :: real where "rk = of_int k"
  define KN where "KN = rk / 100 * N"
  define t where "t = fl (p * N)"
  have N: "1 \<le> N" "N \<le> 1000000" using n by (simp_all add: N_def)
  have N0: "0 < N" using N by linarith
  have rA: "0 < rA" "rA \<le> 1000000000000"
  proof -
    show "0 < rA" using A(1) by (simp add: rA_def)
    have "(of_int A :: real) \<le> of_int 1000000000000" using A(2) by (simp only: of_int_le_iff)
    then show "rA \<le> 1000000000000" by (simp add: rA_def)
  qed
  \<comment> \<open>the amount\<close>
  have "\<bar>rA / 100\<bar> \<le> 50000000000" using rA by linarith
  then have a_err: "\<bar>a - rA / 100\<bar> \<le> 6 / 1000000"
    unfolding a_def rA_def[symmetric] by (rule fl_error_small)
  have a_pos: "0 < a" unfolding a_def rA_def[symmetric] using rA by (intro fl_pos) simp
  have a_le: "a \<le> 10000000001" using a_err rA by linarith
  \<comment> \<open>the quotient\<close>
  have q_pos: "0 < q" unfolding q_def using a_pos N0 by (intro fl_pos) simp
  have aN: "a / N * N = a" using N0 by simp
  have "\<bar>fl (a / N) * N - a / N * N\<bar> \<le> 6 / 1000000"
  proof (rule fl_times_error)
    show "0 < N" by (rule N0)
    show "0 \<le> a / N" using a_pos N0 by simp
    show "a / N * N \<le> 50000000000" unfolding aN using a_le by linarith
  qed
  then have qN_err: "\<bar>q * N - a\<bar> \<le> 6 / 1000000" by (simp only: aN q_def)
  have q_le_qN: "q \<le> q * N" using q_pos N by simp
  \<comment> \<open>the rounded quotient, in cents\<close>
  have k_nonneg: "0 \<le> k" unfolding k_def using q_pos by (intro centsOf_nonneg) simp
  have rk_nonneg: "0 \<le> rk" using k_nonneg by (simp add: rk_def)
  have rk_le: "rk \<le> q * 100 + 1 / 2"
    unfolding rk_def k_def using q_pos by (intro centsOf_le) simp
  have "rk * N \<le> (q * 100 + 1 / 2) * N" using rk_le N0 by (intro mult_right_mono) simp_all
  then have KN_le: "KN \<le> q * N + N / 200" by (simp add: KN_def algebra_simps)
  have KN_nonneg: "0 \<le> KN" using rk_nonneg N0 by (simp add: KN_def)
  have KN_small: "KN \<le> 20000000000" using KN_le qN_err a_le N by linarith
  have rk_small: "rk \<le> 2000000000000" using rk_le q_le_qN qN_err a_le by linarith
  have k_small: "\<bar>k\<bar> \<le> 2 ^ 50"
  proof -
    have "rk \<le> of_int (2 ^ 50)" using rk_small by simp
    then have "k \<le> 2 ^ 50" unfolding rk_def by (simp only: of_int_le_iff)
    with k_nonneg show ?thesis by simp
  qed
  \<comment> \<open>the per-user amount\<close>
  have p_eq: "p = fl (rk / 100)"
    by (simp add: p_def toFixed2_f64_def fdiv_def q_def k_def rk_def N_def)
  have p_cents: "centsOf p = k"
    unfolding p_eq rk_def using k_small by (rule centsOf_fl_cents)
  have p_nonneg: "0 \<le> p" unfolding p_eq using rk_nonneg by (intro fl_nonneg) simp
  have "\<bar>fl (rk / 100) * N - rk / 100 * N\<bar> \<le> 6 / 1000000"
  proof (rule fl_times_error)
    show "0 < N" by (rule N0)
    show "0 \<le> rk / 100" using rk_nonneg by simp
    show "rk / 100 * N \<le> 50000000000" using KN_small unfolding KN_def by linarith
  qed
  then have pN_err: "\<bar>p * N - KN\<bar> \<le> 6 / 1000000" by (simp only: p_eq KN_def)
  have pN_nonneg: "0 \<le> p * N" using p_nonneg N0 by simp
  have p_le_pN: "p \<le> p * N" using p_nonneg N by (simp add: mult_le_cancel_left1)
  have "\<bar>rk / 100\<bar> \<le> 50000000000" using rk_nonneg rk_small by linarith
  then have p_err: "\<bar>p - rk / 100\<bar> \<le> 6 / 1000000"
    unfolding p_eq by (rule fl_error_small)
  \<comment> \<open>the product and the difference\<close>
  have "\<bar>p * N\<bar> \<le> 50000000000" using pN_nonneg pN_err KN_small by linarith
  then have t_err: "\<bar>t - p * N\<bar> \<le> 6 / 1000000"
    unfolding t_def by (rule fl_error_small)
  have d_eq: "d = fl (a - t)" by (simp add: d_def fsub_def fmul_def t_def N_def)
  have at_small: "\<bar>a - t\<bar> \<le> 50000000000"
    using a_pos a_le t_err pN_err pN_nonneg KN_small by linarith
  have d_err: "\<bar>d - (a - t)\<bar> \<le> 6 / 1000000"
    unfolding d_eq using at_small by (rule fl_error_small)
  show "0 < a" by (rule a_pos)
  have p_form: "p = fl (of_int (centsOf p) / 100)"
    unfolding p_cents using p_eq by (simp only: rk_def)
  show "p = fl (of_int (centsOf p) / 100)" by (rule p_form)
  show "centsOf first + (int n - 1) * centsOf p = A"
   and "first = fl (of_int (centsOf first) / 100)"
  proof (atomize (full), cases "d = 0")
    case True
    then have "a = t" by (simp add: d_eq fl_eq_0_iff)
    with a_err t_err pN_err have "\<bar>rA / 100 - KN\<bar> \<le> 18 / 1000000" by linarith
    then have "\<bar>rA / 100 - rk / 100 * N\<bar> \<le> 18 / 1000000" by (simp only: KN_def)
    then have "\<bar>rA - rk * N\<bar> < 1" by linarith
    then have "\<bar>of_int (A - k * int n) :: real\<bar> < 1" by (simp add: rA_def rk_def N_def)
    then have "\<bar>A - k * int n\<bar> < 1" by (simp only: of_int_abs[symmetric] of_int_less_1_iff)
    then have "A = k * int n" by simp
    then have sum: "k + (int n - 1) * k = A" by (simp add: algebra_simps)
    have fp: "first = p" using True by (simp add: first_def)
    have "centsOf p + (int n - 1) * centsOf p = A" using sum by (simp only: p_cents)
    moreover have "p = fl (of_int (centsOf p) / 100)" by (rule p_form)
    ultimately show "centsOf first + (int n - 1) * centsOf p = A
                     \<and> first = fl (of_int (centsOf first) / 100)"
      unfolding fp by (rule conjI)
  next
    case False
    define s where "s = fl (p + d)"
    define K where "K = k + A - k * int n"
    have first_eq: "first = fl (of_int (centsOf s) / 100)"
      using False by (simp add: first_def toFixed2_f64_def fadd_def s_def)
    have pd_small: "\<bar>p + d\<bar> \<le> 50000000000"
      using p_nonneg p_le_pN pN_err KN_small d_err at_small a_pos a_le t_err pN_nonneg
      by linarith
    have s_err: "\<bar>s - (p + d)\<bar> \<le> 6 / 1000000"
      unfolding s_def using pd_small by (rule fl_error_small)
    have rK: "(of_int K :: real) / 100 = rk / 100 + rA / 100 - KN"
      by (simp add: K_def rk_def rA_def KN_def N_def field_simps)
    have "\<bar>s - (rk / 100 + rA / 100 - KN)\<bar> < 1 / 200"
      using s_err p_err d_err a_err t_err pN_err by linarith
    then have near: "\<bar>s - of_int K / 100\<bar> < 1 / 200" by (simp only: rK)
    have s_cents: "centsOf s = K" using near by (rule centsOf_near)
    have K_small: "\<bar>K\<bar> \<le> 2 ^ 50"
    proof -
      have "\<bar>rk / 100 + rA / 100 - KN\<bar> \<le> 40000000000"
        using rk_nonneg rk_small rA KN_nonneg KN_small by linarith
      then have "\<bar>of_int K / 100 :: real\<bar> \<le> 40000000000" by (simp only: rK)
      then have "\<bar>of_int K :: real\<bar> \<le> 4000000000000" by linarith
      then have "(of_int \<bar>K\<bar> :: real) \<le> of_int (2 ^ 50)" by simp
      then show ?thesis by (simp only: of_int_le_iff)
    qed
    have first_cents: "centsOf first = K"
      unfolding first_eq s_cents using K_small by (rule centsOf_fl_cents)
    have sum: "K + (int n - 1) * k = A" by (simp add: K_def algebra_simps)
    have "centsOf first + (int n - 1) * centsOf p = A"
      using sum by (simp only: first_cents p_cents)
    moreover have "first = fl (of_int (centsOf first) / 100)"
      unfolding first_cents using first_eq by (simp only: s_cents)
    ultimately show "centsOf first + (int n - 1) * centsOf p = A
               \<and> first = fl (of_int (centsOf first) / 100)"
      by (rule conjI)
  qed
qed

lemma fl_dyadic:
  assumes "\<bar>m\<bar> < 2 ^ 53"
  shows "fl (of_int m / 2 ^ k) = of_int m / 2 ^ k"
proof (cases "m = 0")
  case True then show ?thesis by (simp add: fl_0)
next
  case False
  let ?x = "of_int m / 2 ^ k :: real"
  have x0: "?x \<noteq> 0" using False by simp
  have am: "\<bar>of_int m :: real\<bar> < 2 ^ 53"
  proof -
    have "(of_int \<bar>m\<bar> :: real) < of_int (2 ^ 53)" using assms by (simp only: of_int_less_iff)
    then show ?thesis by simp
  qed
  have "2 powi (expo ?x) \<le> \<bar>?x\<bar>" by (rule expo_bounds(1)[OF x0])
  also have "\<bar>?x\<bar> = \<bar>of_int m\<bar> / 2 ^ k" by simp
  also have "\<dots> < 2 ^ 53 / 2 ^ k" using am by (simp add: divide_strict_right_mono)
  also have "\<dots> = 2 powi (53 - int k)" by (simp add: power_int_diff)
  finally have lt: "(2::real) powi (expo ?x) < 2 powi (53 - int k)" .
  have e: "expo ?x < 53 - int k"
  proof (rule ccontr)
    assume "\<not> expo ?x < 53 - int k"
    then have "53 - int k \<le> expo ?x" by simp
    then have "(2::real) powi (53 - int k) \<le> 2 powi (expo ?x)"
      by (rule power_int_increasing) simp
    with lt show False by simp
  qed
  define j where "j = nat (52 - int k - expo ?x)"
  have j: "expo ?x - 52 = - int j - int k" using e by (simp add: j_def)
  have "?x / 2 powi (expo ?x - 52) = of_int (m * 2 ^ j)"
    by (simp add: j power_int_diff power_int_minus field_simps)
  then have "roundEven (?x / 2 powi (expo ?x - 52)) = m * 2 ^ j"
    by (simp only: roundEven_of_int)
  then have "fl ?x = of_int (m * 2 ^ j) * 2 powi (expo ?x - 52)"
    using x0 by (simp add: fl_def)
  also have "\<dots> = ?x" by (simp add: j power_int_diff power_int_minus field_simps)
  finally show ?thesis .
qed

lemma fl_whole_examples:
  "fl 10 = 10" "fl 100 = 100" "fl (25 / 2) = 25 / 2" "fl (1 / 8) = 1 / 8" "fl (3 / 8) = 3 / 8"
  "fl (75 / 2) = 75 / 2" "fl (1 / 4) = 1 / 4" "fl (3 / 4) = 3 / 4" "fl 25 = 25"
  using fl_dyadic[of 10 0] fl_dyadic[of 100 0] fl_dyadic[of 25 1] fl_dyadic[of 1 3]
    fl_dyadic[of 3 3] fl_dyadic[of 75 1] fl_dyadic[of 1 2] fl_dyadic[of 3 2] fl_dyadic[of 25 0]
  by simp_all

lemma fl_numeral: "numeral n < (2::int) ^ 53 \<Longrightarrow> fl (numeral n) = numeral n"
  using fl_of_int[of "numeral n"] by simp

lemma fl_cent_pos: "0 < fl (1 / 100)"
  by (rule fl_pos) simp

lemma fl_whole:
  assumes "x \<in> \<int>" and "\<bar>x\<bar> \<le> 10 ^ 12"
  shows "fl x = x"
proof -
  from assms(1) obtain k :: int where k: "x = of_int k" by (auto elim: Ints_cases)
  have "\<bar>of_int k :: real\<bar> \<le> of_int (10 ^ 12)" using assms(2) by (simp add: k)
  then have "(of_int \<bar>k\<bar> :: real) \<le> of_int (10 ^ 12)" by simp
  then have "\<bar>k\<bar> \<le> 10 ^ 12" by (simp only: of_int_le_iff)
  then have "\<bar>k\<bar> < 2 ^ 53" by simp
  then show ?thesis unfolding k by (rule fl_of_int)
qed

lemma centsOf_whole: "centsOf (of_int k) = 100 * k"
proof -
  have "centsOf (of_int k) = 100 * k" if "\<bar>of_int k - of_int (100 * k) / 100 :: real\<bar> < 1 / 200"
    using that by (rule centsOf_near)
  then show ?thesis by simp
qed

lemma toFixed2_f64_whole:
  assumes "x \<in> \<int>" and "\<bar>x\<bar> \<le> 10 ^ 12"
  shows "toFixed2_f64 x = x"
proof -
  from assms(1) obtain k :: int where k: "x = of_int k" by (auto elim: Ints_cases)
  have "toFixed2_f64 x = fl (of_int (100 * k) / 100)"
    by (simp only: toFixed2_f64_def k centsOf_whole)
  also have "\<dots> = fl x" by (simp add: k)
  also have "\<dots> = x" using assms by (rule fl_whole)
  finally show ?thesis .
qed

lemma toFixed2_whole:
  assumes "x \<in> \<int>"
  shows "toFixed2 x = x"
proof -
  from assms obtain k :: int where k: "x = of_int k" by (auto elim: Ints_cases)
  have "x = of_int (100 * k) / 100" by (simp add: k)
  then have "cents x" unfolding cents_iff ..
  then show ?thesis by (rule toFixed2_cents)
qed

lemma fl_cent_less_1: "fl (1 / 100) < 1"
proof -
  have "\<bar>fl (1 / 100) - 1 / 100\<bar> \<le> 6 / 1000000" by (rule fl_error_small) simp
  then show ?thesis by linarith
qed

lemma whole_small_iff:
  assumes "x \<in> \<int>" and "0 \<le> x"
  shows "x < fl (1 / 100) \<longleftrightarrow> x < 1 / 100"
proof -
  from assms(1) obtain k :: int where k: "x = of_int k" by (auto elim: Ints_cases)
  have k0: "0 \<le> k" using assms(2) by (simp add: k)
  have a: "x < fl (1 / 100) \<longleftrightarrow> k = 0"
  proof
    assume "x < fl (1 / 100)"
    then have "of_int k < (1::real)" using fl_cent_less_1 by (simp add: k)
    then have "k < 1" by simp
    with k0 show "k = 0" by simp
  next
    assume "k = 0" then show "x < fl (1 / 100)" using fl_cent_pos by (simp add: k)
  qed
  have b: "x < 1 / 100 \<longleftrightarrow> k = 0"
  proof
    assume "x < 1 / 100"
    then have "of_int k < (1::real)" by (simp add: k)
    then have "k < 1" by simp
    with k0 show "k = 0" by simp
  next
    assume "k = 0" then show "x < 1 / 100" by (simp add: k)
  qed
  from a b show ?thesis by simp
qed

lemma expo_unique:
  assumes "2 powi e \<le> \<bar>x\<bar>" and "\<bar>x\<bar> < 2 powi (e + 1)"
  shows "expo x = e"
proof -
  have "(0::real) < 2 powi e" by simp
  with assms(1) have "0 < \<bar>x\<bar>" by linarith
  then have x0: "x \<noteq> 0" by simp
  note b = expo_bounds[OF x0]
  have 1: "e < expo x + 1"
  proof (rule ccontr)
    assume "\<not> e < expo x + 1"
    then have "expo x + 1 \<le> e" by simp
    then have "(2::real) powi (expo x + 1) \<le> 2 powi e" by (rule power_int_increasing) simp
    with b(2) assms(1) show False by linarith
  qed
  have 2: "expo x < e + 1"
  proof (rule ccontr)
    assume "\<not> expo x < e + 1"
    then have "e + 1 \<le> expo x" by simp
    then have "(2::real) powi (e + 1) \<le> 2 powi (expo x)" by (rule power_int_increasing) simp
    with b(1) assms(2) show False by linarith
  qed
  from 1 2 show ?thesis by simp
qed

lemma roundEven_near:
  assumes "\<bar>y - of_int m\<bar> < 1 / 2"
  shows "roundEven y = m"
proof (cases "of_int m \<le> y")
  case True
  have "of_int m \<le> y" "y < of_int m + 1" using True assms by linarith+
  then have f: "\<lfloor>y\<rfloor> = m" by (rule floor_unique)
  have "y - of_int m < 1 / 2" using assms by linarith
  then show ?thesis by (simp add: roundEven_def Let_def f)
next
  case False
  have m1: "(of_int (m - 1) :: real) = of_int m - 1" by simp
  have "of_int (m - 1) \<le> y" "y < of_int (m - 1) + 1" unfolding m1 using False assms by linarith+
  then have f: "\<lfloor>y\<rfloor> = m - 1" by (rule floor_unique)
  have "1 / 2 < y - (of_int m - 1)" using assms False by linarith
  then show ?thesis by (simp add: roundEven_def Let_def f)
qed

lemma fl_eqI:
  assumes "2 ^ 52 \<le> \<bar>x\<bar> * 2 ^ k" and "\<bar>x\<bar> * 2 ^ k < 2 ^ 53"
    and "\<bar>x * 2 ^ k - of_int m\<bar> < 1 / 2"
  shows "fl x = of_int m / 2 ^ k"
proof -
  have p: "(2::real) powi (52 - int k) = 2 ^ 52 / 2 ^ k" by (simp add: power_int_diff)
  have q: "(2::real) powi (52 - int k + 1) = 2 ^ 53 / 2 ^ k"
  proof -
    have "52 - int k + 1 = 53 - int k" by simp
    then show ?thesis by (simp add: power_int_diff)
  qed
  have lo: "2 powi (52 - int k) \<le> \<bar>x\<bar>" unfolding p using assms(1) by (simp add: field_simps)
  have hi: "\<bar>x\<bar> < 2 powi (52 - int k + 1)" unfolding q using assms(2) by (simp add: field_simps)
  have e: "expo x = 52 - int k" using lo hi by (rule expo_unique)
  have "(0::real) < 2 powi (52 - int k)" by simp
  with lo have "0 < \<bar>x\<bar>" by linarith
  then have x0: "x \<noteq> 0" by simp
  have u: "(2::real) powi (expo x - 52) = 1 / 2 ^ k"
    by (simp add: e power_int_minus divide_inverse)
  have "roundEven (x / 2 powi (expo x - 52)) = m"
    unfolding u using assms(3) by (intro roundEven_near) simp
  then show ?thesis using x0 by (simp add: fl_def u)
qed

lemma fl_cent_values:
  "fl (1 / 100) = 5764607523034235 / 2 ^ 59"
  "fl (2 / 100) = 5764607523034235 / 2 ^ 58"
  "fl (3 / 100) = 8646911284551352 / 2 ^ 58"
  using fl_eqI[where x = "1 / 100" and k = 59 and m = 5764607523034235]
        fl_eqI[where x = "2 / 100" and k = 58 and m = 5764607523034235]
        fl_eqI[where x = "3 / 100" and k = 58 and m = 8646911284551352]
  by simp_all

lemma three_minus_two_cents: "fsub (fl (3 / 100)) (fl (2 / 100)) < fl (1 / 100)"
proof -
  have d: "fl (3 / 100) - fl (2 / 100) = of_int 5764607523034234 / 2 ^ 59"
    unfolding fl_cent_values by simp
  have "fl (of_int 5764607523034234 / 2 ^ 59) = of_int 5764607523034234 / 2 ^ 59"
    by (rule fl_dyadic) simp
  then have "fsub (fl (3 / 100)) (fl (2 / 100)) = of_int 5764607523034234 / 2 ^ 59"
    by (simp only: fsub_def d)
  then show ?thesis unfolding fl_cent_values(1) by simp
qed


lemma toFixed2_f64_cents:
  "\<bar>K\<bar> \<le> 2 ^ 50 \<Longrightarrow> toFixed2_f64 (fl (of_int K / 100)) = fl (of_int K / 100)"
  by (simp add: toFixed2_f64_def centsOf_fl_cents)

lemma centsOf_minus: "x \<noteq> 0 \<Longrightarrow> centsOf (- x) = - centsOf x"
  by (simp add: centsOf_def)

lemma fl_minus_3_cents: "fl (- (3 / 100)) = - fl (3 / 100)"
  using fl_eqI[where x = "- (3 / 100)" and k = 58 and m = "- 8646911284551352"]
  unfolding fl_cent_values by simp

section \<open>Properties of the split allocation\<close>


lemma percentageLoop_eq:
  "percentageLoop amt ds tot acc =
     (case find (\<lambda>(u, p). p < 0) ds of
        Some (u, p) \<Rightarrow> Inl (InvalidPercentageForUser u)
      | None \<Rightarrow> Inr (tot + sum_list (map snd ds),
                     acc @ map (\<lambda>(u, p). \<lparr>user = u, share = toFixed2 ((amt * p) / 100)\<rparr>) ds))"
  by (induction ds arbitrary: tot acc) (auto split: option.splits)

lemma exactLoop_eq:
  "exactLoop ds tot acc =
     (case find (\<lambda>(u, p). p < 0) ds of
        Some (u, p) \<Rightarrow> Inl (InvalidShareForUser u)
      | None \<Rightarrow> Inr (tot + sum_list (map snd ds),
                     acc @ map (\<lambda>(u, p). \<lparr>user = u, share = p\<rparr>) ds))"
  by (induction ds arbitrary: tot acc) (auto split: option.splits)

lemma find_None_nonneg: "find (\<lambda>(u, p). p < 0) ds = None \<longleftrightarrow> (\<forall>(u, p) \<in> set ds. (0::real) \<le> p)"
  by (induction ds) (auto)

lemma calculatePercentageSplit_Inr:
  assumes "calculatePercentageSplit amt ds = Inr ss"
  shows "ss = map (\<lambda>(u, p). \<lparr>user = u, share = toFixed2 ((amt * p) / 100)\<rparr>) ds"
    and "\<forall>(u, p) \<in> set ds. 0 \<le> p"
    and "\<bar>sum_list (map snd ds) - 100\<bar> \<le> 1 / 100"
  using assms
  by (auto simp: calculatePercentageSplit_def percentageLoop_eq find_None_nonneg[symmetric]
           split: option.splits if_splits)

lemma validateExactSplit_Inr:
  assumes "validateExactSplit amt ds = Inr ss"
  shows "ss = map (\<lambda>(u, p). \<lparr>user = u, share = p\<rparr>) ds"
    and "\<forall>(u, p) \<in> set ds. 0 \<le> p"
    and "\<bar>sum_list (map snd ds) - amt\<bar> \<le> 1 / 100"
  using assms
  by (auto simp: validateExactSplit_def exactLoop_eq find_None_nonneg[symmetric]
           split: option.splits if_splits)

lemma map_user_percentage:
  "map user (map (\<lambda>(u, p). \<lparr>user = u, share = f u p\<rparr>) ds) = map fst ds"
  by (induction ds) auto

lemma calculateEqualSplit_users: "map user (calculateEqualSplit amt users) = users"
  by (simp add: calculateEqualSplit_def Let_def map_snd_enumerate comp_def case_prod_unfold)

lemma map_enumerate_tail:
  "0 < n \<Longrightarrow> map (\<lambda>(index, userId). \<lparr>user = userId, share = (if index = (0::nat) then a else b)\<rparr>)
                 (enumerate n us)
             = map (\<lambda>v. \<lparr>user = v, share = b\<rparr>) us"
  by (induction us arbitrary: n) auto

lemma calculateEqualSplit_Cons:
  "calculateEqualSplit amt (u # us) =
     (let p = toFixed2 (amt / of_nat (length (u # us)));
          d = amt - p * of_nat (length (u # us))
      in \<lparr>user = u, share = (if d \<noteq> 0 then toFixed2 (p + d) else p)\<rparr>
         # map (\<lambda>v. \<lparr>user = v, share = p\<rparr>) us)"
  by (simp add: calculateEqualSplit_def Let_def map_enumerate_tail)

lemma calculateEqualSplit_f64_Cons:
  "calculateEqualSplit_f64 amt (u # us) =
     (let p = toFixed2_f64 (fdiv amt (of_nat (length (u # us))));
          d = fsub amt (fmul p (of_nat (length (u # us))))
      in \<lparr>user = u, share = (if d \<noteq> 0 then toFixed2_f64 (fadd p d) else p)\<rparr>
         # map (\<lambda>v. \<lparr>user = v, share = p\<rparr>) us)"
  by (simp add: calculateEqualSplit_f64_def Let_def map_enumerate_tail)

lemma sum_list_const_cents:
  "sum_list (map (\<lambda>s. centsOf (share s)) (map (\<lambda>v. \<lparr>user = v, share = p\<rparr>) us))
     = int (length us) * centsOf p"
  by (induction us) (simp_all add: algebra_simps)

lemma percentageLoop_f64_eq:
  "percentageLoop_f64 amt ds tot acc =
     (case find (\<lambda>(u, p). p < 0) ds of
        Some (u, p) \<Rightarrow> Inl (InvalidPercentageForUser u)
      | None \<Rightarrow> Inr (fold (\<lambda>val sum. fadd sum val) (map snd ds) tot,
                     acc @ map (\<lambda>(u, p). \<lparr>user = u,
                                            share = toFixed2_f64 (fdiv (fmul amt p) 100)\<rparr>) ds))"
  by (induction ds arbitrary: tot acc) (auto split: option.splits)

lemma exactLoop_f64_eq:
  "exactLoop_f64 ds tot acc =
     (case find (\<lambda>(u, p). p < 0) ds of
        Some (u, p) \<Rightarrow> Inl (InvalidShareForUser u)
      | None \<Rightarrow> Inr (fold (\<lambda>val sum. fadd sum val) (map snd ds) tot,
                     acc @ map (\<lambda>(u, p). \<lparr>user = u, share = p\<rparr>) ds))"
  by (induction ds arbitrary: tot acc) (auto split: option.splits)

lemma calculatePercentageSplit_f64_Inr:
  assumes "calculatePercentageSplit_f64 amt ds = Inr ss"
  shows "ss = map (\<lambda>(u, p). \<lparr>user = u, share = toFixed2_f64 (fdiv (fmul amt p) 100)\<rparr>) ds"
  using assms
  by (auto simp: calculatePercentageSplit_f64_def percentageLoop_f64_eq
           split: option.splits if_splits)

lemma validateExactSplit_f64_Inr:
  assumes "validateExactSplit_f64 amt ds = Inr ss"
  shows "ss = map (\<lambda>(u, p). \<lparr>user = u, share = p\<rparr>) ds"
  using assms
  by (auto simp: validateExactSplit_f64_def exactLoop_f64_eq split: option.splits if_splits)

lemma calculatePercentageSplit_f64_ok:
  assumes "\<forall>(u, p) \<in> set ds. 0 \<le> p"
    and "\<not> offTarget (fold (\<lambda>val sum. fadd sum val) (map snd ds) 0) 100"
  shows "calculatePercentageSplit_f64 amt ds
           = Inr (map (\<lambda>(u, p). \<lparr>user = u, share = toFixed2_f64 (fdiv (fmul amt p) 100)\<rparr>) ds)"
proof -
  from assms(1) have "find (\<lambda>(u, p). p < 0) ds = None" by (simp only: find_None_nonneg)
  with assms(2) show ?thesis
    by (simp add: calculatePercentageSplit_f64_def percentageLoop_f64_eq)
qed

lemma validateExactSplit_f64_ok:
  assumes "\<forall>(u, p) \<in> set ds. 0 \<le> p"
    and "\<not> offTarget (fold (\<lambda>val sum. fadd sum val) (map snd ds) 0) amt"
  shows "validateExactSplit_f64 amt ds = Inr (map (\<lambda>(u, p). \<lparr>user = u, share = p\<rparr>) ds)"
proof -
  from assms(1) have "find (\<lambda>(u, p). p < 0) ds = None" by (simp only: find_None_nonneg)
  with assms(2) show ?thesis
    by (simp add: validateExactSplit_f64_def exactLoop_f64_eq)
qed

lemma Inr_keys:
  assumes "r = Inr (map (\<lambda>(u, p). \<lparr>user = u, share = f u p\<rparr>) ds)"
  shows "\<exists>ss. r = Inr ss \<and> map user ss = map fst ds"
proof -
  have "map user (map (\<lambda>(u, p). \<lparr>user = u, share = f u p\<rparr>) ds) = map fst ds"
    by (rule map_user_percentage)
  with assms show ?thesis by blast
qed

section \<open>Claims about the split allocation\<close>

text \<open>
  C1. The claim promises an exact total for every positive amount, in both revisions.
  The first revision adds no remainder at all: 100 for three users gives three times
  33.33, which is 99.99. The second revision rounds the first share again after adding
  the remainder, so an amount that is not a whole number of cents is not reached: 10.004
  for one user gives 10. Both are computed in double precision.
\<close>

theorem equal_split_remainder_counterexample:
  "calculateSplits_v1_f64 100 ''equal'' [''A'', ''B'', ''C''] []
     = Inr [\<lparr>user = ''A'', share = fl (3333 / 100)\<rparr>, \<lparr>user = ''B'', share = fl (3333 / 100)\<rparr>,
            \<lparr>user = ''C'', share = fl (3333 / 100)\<rparr>]
   \<and> sum_list (map (\<lambda>s. centsOf (share s))
         [\<lparr>user = ''A'', share = fl (3333 / 100)\<rparr>, \<lparr>user = ''B'', share = fl (3333 / 100)\<rparr>,
          \<lparr>user = ''C'', share = fl (3333 / 100)\<rparr>]) = 9999
   \<and> sum_list (map share
         [\<lparr>user = ''A'', share = fl (3333 / 100)\<rparr>, \<lparr>user = ''B'', share = fl (3333 / 100)\<rparr>,
          \<lparr>user = ''C'', share = fl (3333 / 100)\<rparr>]) < 100
   \<and> calculateSplits_v2_f64 (fl (10004 / 1000)) ''equal'' [''A''] []
     = Inr [\<lparr>user = ''A'', share = 10\<rparr>]
   \<and> 10 < fl (10004 / 1000)"
proof -
  \<comment> \<open>first revision: 100 / 3\<close>
  have q: "\<bar>fl (100 / 3) - 100 / 3\<bar> \<le> 6 / 1000000" by (rule fl_error_small) simp
  have "\<bar>fl (100 / 3) - 3333 / 100\<bar> < 1 / 200" using q by linarith
  then have c: "centsOf (fl (100 / 3)) = 3333" using centsOf_near[of "fl (100 / 3)" 3333] by simp
  have s: "toFixed2_f64 (fdiv 100 3) = fl (3333 / 100)"
    by (simp add: toFixed2_f64_def fdiv_def c)
  have v1: "calculateSplits_v1_f64 100 ''equal'' [''A'', ''B'', ''C''] []
     = Inr [\<lparr>user = ''A'', share = fl (3333 / 100)\<rparr>, \<lparr>user = ''B'', share = fl (3333 / 100)\<rparr>,
            \<lparr>user = ''C'', share = fl (3333 / 100)\<rparr>]"
    by (simp add: calculateSplits_v1_f64_def s)
  have "centsOf (fl (of_int 3333 / 100)) = 3333" by (rule centsOf_fl_cents) simp
  then have c2: "centsOf (fl (3333 / 100)) = 3333" by simp
  have "\<bar>fl (3333 / 100) - 3333 / 100\<bar> \<le> 6 / 1000000" by (rule fl_error_small) simp
  then have e: "3 * fl (3333 / 100) < 100" by linarith
  \<comment> \<open>second revision: 10.004 for one user\<close>
  define a where "a = fl (10004 / 1000)"
  have a: "\<bar>a - 10004 / 1000\<bar> \<le> 6 / 1000000" unfolding a_def by (rule fl_error_small) simp
  have "\<bar>a\<bar> \<le> 50000000000" using a by linarith
  then have qa: "\<bar>fl a - a\<bar> \<le> 6 / 1000000" by (rule fl_error_small)
  have "\<bar>fl a - 1000 / 100\<bar> < 1 / 200" using a qa by linarith
  then have "centsOf (fl a) = 1000" using centsOf_near[of "fl a" 1000] by simp
  then have p: "toFixed2_f64 (fdiv a 1) = 10"
    by (simp add: toFixed2_f64_def fdiv_def fl_whole_examples)
  have gt: "10 < a" using a by linarith
  then have d0: "fsub a (fmul 10 1) \<noteq> 0"
    by (simp add: fsub_def fmul_def fl_whole_examples fl_eq_0_iff)
  define d where "d = fl (a - 10)"
  have "\<bar>a - 10\<bar> \<le> 50000000000" using a by linarith
  then have d: "\<bar>d - (a - 10)\<bar> \<le> 6 / 1000000" unfolding d_def by (rule fl_error_small)
  have "\<bar>10 + d\<bar> \<le> 50000000000" using a d by linarith
  then have s2: "\<bar>fl (10 + d) - (10 + d)\<bar> \<le> 6 / 1000000" by (rule fl_error_small)
  have "\<bar>fl (10 + d) - 1000 / 100\<bar> < 1 / 200" using a d s2 by linarith
  then have "centsOf (fl (10 + d)) = 1000" using centsOf_near[of "fl (10 + d)" 1000] by simp
  then have f: "toFixed2_f64 (fadd 10 (fsub a (fmul 10 1))) = 10"
    by (simp add: toFixed2_f64_def fadd_def fsub_def fmul_def fl_whole_examples d_def)
  have pos: "0 < a" using a by linarith
  have v2: "calculateSplits_v2_f64 a ''equal'' [''A''] [] = Inr [\<lparr>user = ''A'', share = 10\<rparr>]"
    using pos d0 by (simp add: calculateSplits_v2_f64_def calculateEqualSplit_f64_Cons p f)
  from v1 c2 e v2 gt show ?thesis unfolding a_def by simp
qed

text \<open>
  C1, as amended. In the second revision, computed in double precision, for every amount
  that is a positive whole number of cents (up to 10^12 cents) and every non-empty list
  of up to 10^6 users, \<^verbatim>\<open>equal\<close> succeeds with one split per user, in the order of the
  list; every share is the double of a whole number of cents; every share but the first
  is the amount divided by the number of users, rounded to 2 decimals; the first share is
  that value plus the whole remainder, counted in cents; and the shares, counted in
  cents, add up to the amount. The witness is 2.01 for two users, where \<^verbatim>\<open>2.01 / 2\<close>
  rounds down to 1.00 and the first user gets 1.01.
\<close>

theorem equal_split_reconciles:
  fixes A :: int
  assumes "0 < A" and "A \<le> 10 ^ 12" and "users \<noteq> []" and "length users \<le> 10 ^ 6"
  shows "\<exists>ss. calculateSplits_v2_f64 (fl (of_int A / 100)) ''equal'' users splitDetails = Inr ss
            \<and> map user ss = users
            \<and> (\<forall>s \<in> set ss. share s = fl (of_int (centsOf (share s)) / 100))
            \<and> (\<forall>s \<in> set (tl ss).
                  share s = toFixed2_f64 (fdiv (fl (of_int A / 100)) (of_nat (length users))))
            \<and> centsOf (share (hd ss))
                = centsOf (toFixed2_f64 (fdiv (fl (of_int A / 100)) (of_nat (length users))))
                  + (A - int (length users)
                         * centsOf (toFixed2_f64 (fdiv (fl (of_int A / 100)) (of_nat (length users)))))
            \<and> sum_list (map (\<lambda>s. centsOf (share s)) ss) = A"
proof -
  from assms(3) obtain u us where users: "users = u # us" by (cases users) auto
  define n where "n = length users"
  define a where "a = fl (of_int A / 100)"
  define p where "p = toFixed2_f64 (fdiv a (of_nat n))"
  define d where "d = fsub a (fmul p (of_nat n))"
  define first where "first = (if d \<noteq> 0 then toFixed2_f64 (fadd p d) else p)"
  let ?ss = "\<lparr>user = u, share = first\<rparr> # map (\<lambda>v. \<lparr>user = v, share = p\<rparr>) us"
  have A2: "A \<le> 1000000000000" using assms(2) by simp
  have n0: "0 < n" using assms(3) by (simp add: n_def)
  have n1: "n \<le> 1000000" using assms(4) by (simp add: n_def)
  note num = equal_split_numbers[OF assms(1) A2 n0 n1]
  have sum: "centsOf first + (int n - 1) * centsOf p = A"
    using num(1) by (simp only: a_def p_def d_def first_def)
  have fform: "first = fl (of_int (centsOf first) / 100)"
    using num(2) by (simp only: a_def p_def d_def first_def)
  have pform: "p = fl (of_int (centsOf p) / 100)"
    using num(3) by (simp only: a_def p_def)
  have pos: "0 < a" using num(4) by (simp only: a_def)
  have len: "length (u # us) = n" by (simp add: n_def users)
  have eq: "calculateEqualSplit_f64 a users = ?ss"
    unfolding users calculateEqualSplit_f64_Cons len
    by (simp add: Let_def first_def d_def p_def)
  have run: "calculateSplits_v2_f64 a ''equal'' users splitDetails = Inr ?ss"
    using pos assms(3) by (simp add: calculateSplits_v2_f64_def eq)
  have names: "map user ?ss = users" by (simp add: users comp_def)
  have forms: "\<forall>s \<in> set ?ss. share s = fl (of_int (centsOf (share s)) / 100)"
    using fform pform by auto
  have rest: "\<forall>s \<in> set (tl ?ss). share s = p" by auto
  have lus: "int (length us) = int n - 1" by (simp add: n_def users)
  have first_c: "centsOf (share (hd ?ss)) = centsOf p + (A - int n * centsOf p)"
    using sum by (simp add: algebra_simps)
  have total: "sum_list (map (\<lambda>s. centsOf (share s)) ?ss) = A"
    unfolding list.map sum_list.Cons sum_list_const_cents lus using sum by simp
  from run names forms rest first_c total show ?thesis
    unfolding a_def[symmetric] n_def[symmetric] p_def[symmetric] by blast
qed

theorem equal_split_reconciles_witness:
  "\<exists>ss. calculateSplits_v2_f64 (fl (of_int 201 / 100)) ''equal'' [''A'', ''B''] [] = Inr ss
            \<and> map user ss = [''A'', ''B'']
            \<and> (\<forall>s \<in> set ss. share s = fl (of_int (centsOf (share s)) / 100))
            \<and> (\<forall>s \<in> set (tl ss).
                  share s = toFixed2_f64 (fdiv (fl (of_int 201 / 100)) (of_nat (length [''A'', ''B'']))))
            \<and> centsOf (share (hd ss))
                = centsOf (toFixed2_f64 (fdiv (fl (of_int 201 / 100)) (of_nat (length [''A'', ''B'']))))
                  + (201 - int (length [''A'', ''B''])
                         * centsOf (toFixed2_f64 (fdiv (fl (of_int 201 / 100)) (of_nat (length [''A'', ''B''])))))
            \<and> sum_list (map (\<lambda>s. centsOf (share s)) ss) = 201"
proof -
  have 1: "(0::int) < 201" by simp
  have 2: "(201::int) \<le> 10 ^ 12" by simp
  have 3: "[''A'', ''B''] \<noteq> []" by simp
  have 4: "length [''A'', ''B''] \<le> 10 ^ 6" by simp
  show ?thesis by (rule equal_split_reconciles[OF 1 2 3 4])
qed

text \<open>
  C2. Neither revision of the allocator adds a remainder under \<^verbatim>\<open>percentage\<close>: the
  shares are the rounded products and nothing else. For the amount 0.5 and the
  percentages 25 and 75 the products 0.125 and 0.375 are doubles and round to 0.13 and
  0.38: the total is 0.51, and the first share is left as it is.
\<close>

theorem percentage_remainder_counterexample:
  "\<not> offTarget (fold (\<lambda>val sum. fadd sum val) (map snd [(''A'', 25), (''B'', 75 :: real)]) 0) 100
   \<and> calculateSplits_v2_f64 (1 / 2) ''percentage'' [''A'', ''B''] [(''A'', 25), (''B'', 75)]
       = Inr [\<lparr>user = ''A'', share = fl (13 / 100)\<rparr>, \<lparr>user = ''B'', share = fl (38 / 100)\<rparr>]
   \<and> calculateSplits_v1_f64 (1 / 2) ''percentage'' [''A'', ''B''] [(''A'', 25), (''B'', 75)]
       = Inr [\<lparr>user = ''A'', share = fl (13 / 100)\<rparr>, \<lparr>user = ''B'', share = fl (38 / 100)\<rparr>]
   \<and> sum_list (map (\<lambda>s. centsOf (share s))
         [\<lparr>user = ''A'', share = fl (13 / 100)\<rparr>, \<lparr>user = ''B'', share = fl (38 / 100)\<rparr>]) = 51
   \<and> sum_list (map share
         [\<lparr>user = ''A'', share = fl (13 / 100)\<rparr>, \<lparr>user = ''B'', share = fl (38 / 100)\<rparr>]) > 1 / 2"
proof -
  have tot: "\<not> offTarget (fold (\<lambda>val sum. fadd sum val) (map snd [(''A'', 25), (''B'', 75 :: real)]) 0) 100"
    using fl_cent_pos by (simp add: offTarget_def fadd_def fsub_def fl_numeral fl_0)
  have c1: "centsOf (1 / 8) = 13" and c2: "centsOf (3 / 8) = 38"
    by (simp_all add: centsOf_def)
  have a2: "toFixed2_f64 (fdiv (fmul (1 / 2) 25) 100) = fl (13 / 100)"
    by (simp add: toFixed2_f64_def fdiv_def fmul_def fl_whole_examples c1)
  have b2: "toFixed2_f64 (fdiv (fmul (1 / 2) 75) 100) = fl (38 / 100)"
    by (simp add: toFixed2_f64_def fdiv_def fmul_def fl_whole_examples c2)
  have a1: "toFixed2_f64 (fmul (fdiv 25 100) (1 / 2)) = fl (13 / 100)"
    by (simp add: toFixed2_f64_def fdiv_def fmul_def fl_whole_examples c1)
  have b1: "toFixed2_f64 (fmul (fdiv 75 100) (1 / 2)) = fl (38 / 100)"
    by (simp add: toFixed2_f64_def fdiv_def fmul_def fl_whole_examples c2)
  have nn: "\<forall>(u, p) \<in> set [(''A'', 25), (''B'', 75 :: real)]. 0 \<le> p" by simp
  have v2: "calculateSplits_v2_f64 (1 / 2) ''percentage'' [''A'', ''B''] [(''A'', 25), (''B'', 75)]
       = Inr [\<lparr>user = ''A'', share = fl (13 / 100)\<rparr>, \<lparr>user = ''B'', share = fl (38 / 100)\<rparr>]"
    by (simp add: calculateSplits_v2_f64_def calculatePercentageSplit_f64_ok[OF nn tot] a2 b2)
  have v1: "calculateSplits_v1_f64 (1 / 2) ''percentage'' [''A'', ''B''] [(''A'', 25), (''B'', 75)]
       = Inr [\<lparr>user = ''A'', share = fl (13 / 100)\<rparr>, \<lparr>user = ''B'', share = fl (38 / 100)\<rparr>]"
    using tot by (simp add: calculateSplits_v1_f64_def a1 b1)
  have "centsOf (fl (of_int 13 / 100)) = 13" by (rule centsOf_fl_cents) simp
  then have k1: "centsOf (fl (13 / 100)) = 13" by simp
  have "centsOf (fl (of_int 38 / 100)) = 38" by (rule centsOf_fl_cents) simp
  then have k2: "centsOf (fl (38 / 100)) = 38" by simp
  have e1: "\<bar>fl (13 / 100) - 13 / 100\<bar> \<le> 6 / 1000000" by (rule fl_error_small) simp
  have e2: "\<bar>fl (38 / 100) - 38 / 100\<bar> \<le> 6 / 1000000" by (rule fl_error_small) simp
  have gt: "1 / 2 < fl (13 / 100) + fl (38 / 100)" using e1 e2 by linarith
  have cents: "sum_list (map (\<lambda>s. centsOf (share s))
         [\<lparr>user = ''A'', share = fl (13 / 100)\<rparr>, \<lparr>user = ''B'', share = fl (38 / 100)\<rparr>]) = 51"
    using k1 k2 by simp
  have reals: "sum_list (map share
         [\<lparr>user = ''A'', share = fl (13 / 100)\<rparr>, \<lparr>user = ''B'', share = fl (38 / 100)\<rparr>]) > 1 / 2"
    using gt by simp
  from tot v2 v1 cents reals show ?thesis by (intro conjI)
qed

text \<open>
  C2, as amended. For every \<^verbatim>\<open>percentage\<close> allocation with a positive amount and a
  non-empty user list whose percentages, added up in double precision in the order of the
  keys, pass the test of the code against 100, the first revision returns for each key,
  in order, the share \<^verbatim>\<open>(percentage / 100) * amount\<close> rounded to 2 decimals, and the
  second revision, when no percentage is negative, the share
  \<^verbatim>\<open>(amount * percentage) / 100\<close> rounded to 2 decimals. No remainder is moved.
\<close>

theorem percentage_split_shares:
  assumes "0 < amt" and "users \<noteq> []"
    and "\<not> offTarget (fold (\<lambda>val sum. fadd sum val) (map snd splitDetails) 0) 100"
  shows "calculateSplits_v1_f64 amt ''percentage'' users splitDetails
           = Inr (map (\<lambda>(u, p). \<lparr>user = u, share = toFixed2_f64 (fmul (fdiv p 100) amt)\<rparr>)
                      splitDetails)
       \<and> ((\<forall>(u, p) \<in> set splitDetails. 0 \<le> p) \<longrightarrow>
            calculateSplits_v2_f64 amt ''percentage'' users splitDetails
              = Inr (map (\<lambda>(u, p). \<lparr>user = u, share = toFixed2_f64 (fdiv (fmul amt p) 100)\<rparr>)
                         splitDetails))"
proof (intro conjI impI)
  from assms
  show "calculateSplits_v1_f64 amt ''percentage'' users splitDetails
           = Inr (map (\<lambda>(u, p). \<lparr>user = u, share = toFixed2_f64 (fmul (fdiv p 100) amt)\<rparr>)
                      splitDetails)"
    by (simp add: calculateSplits_v1_f64_def)
next
  assume nn: "\<forall>(u, p) \<in> set splitDetails. 0 \<le> p"
  from assms(1,2)
  show "calculateSplits_v2_f64 amt ''percentage'' users splitDetails
              = Inr (map (\<lambda>(u, p). \<lparr>user = u, share = toFixed2_f64 (fdiv (fmul amt p) 100)\<rparr>)
                         splitDetails)"
    by (simp add: calculateSplits_v2_f64_def calculatePercentageSplit_f64_ok[OF nn assms(3)])
qed

theorem percentage_split_shares_witness:
  "calculateSplits_v1_f64 200 ''percentage'' [''A''] [(''A'', 25), (''B'', 75)]
     = Inr [\<lparr>user = ''A'', share = 50\<rparr>, \<lparr>user = ''B'', share = 150\<rparr>]
   \<and> calculateSplits_v2_f64 200 ''percentage'' [''A''] [(''A'', 25), (''B'', 75)]
     = Inr [\<lparr>user = ''A'', share = 50\<rparr>, \<lparr>user = ''B'', share = 150\<rparr>]"
proof -
  have 1: "(0::real) < 200" by simp
  have 2: "[''A''] \<noteq> []" by simp
  have 3: "\<not> offTarget (fold (\<lambda>val sum. fadd sum val) (map snd [(''A'', 25), (''B'', 75 :: real)]) 0) 100"
    using fl_cent_pos by (simp add: offTarget_def fadd_def fsub_def fl_numeral fl_0)
  have 4: "\<forall>(u, p) \<in> set [(''A'', 25), (''B'', 75 :: real)]. 0 \<le> p" by simp
  note t = percentage_split_shares[OF 1 2 3]
  have c: "centsOf 50 = 5000" "centsOf 150 = 15000" by (simp_all add: centsOf_def)
  have a1: "toFixed2_f64 (fmul (fdiv 25 100) 200) = 50"
    by (simp add: toFixed2_f64_def fdiv_def fmul_def fl_whole_examples fl_numeral c)
  have b1: "toFixed2_f64 (fmul (fdiv 75 100) 200) = 150"
    by (simp add: toFixed2_f64_def fdiv_def fmul_def fl_whole_examples fl_numeral c)
  have a2: "toFixed2_f64 (fdiv (fmul 200 25) 100) = 50"
    by (simp add: toFixed2_f64_def fdiv_def fmul_def fl_numeral c)
  have b2: "toFixed2_f64 (fdiv (fmul 200 75) 100) = 150"
    by (simp add: toFixed2_f64_def fdiv_def fmul_def fl_numeral c)
  from t[THEN conjunct1] have v1:
    "calculateSplits_v1_f64 200 ''percentage'' [''A''] [(''A'', 25), (''B'', 75)]
       = Inr [\<lparr>user = ''A'', share = 50\<rparr>, \<lparr>user = ''B'', share = 150\<rparr>]"
    by (simp add: a1 b1)
  from t[THEN conjunct2, THEN mp, OF 4] have v2:
    "calculateSplits_v2_f64 200 ''percentage'' [''A''] [(''A'', 25), (''B'', 75)]
       = Inr [\<lparr>user = ''A'', share = 50\<rparr>, \<lparr>user = ''B'', share = 150\<rparr>]"
    by (simp add: a2 b2)
  from v1 v2 show ?thesis by (rule conjI)
qed




text \<open>
  C9. A share can be negative: in the second revision the first user of an \<^verbatim>\<open>equal\<close>
  split absorbs the whole rounding difference (3 cents among five users give -0.01 to the
  first), and the first revision accepts negative \<^verbatim>\<open>exact\<close> values. Under
  \<^verbatim>\<open>percentage\<close> and \<^verbatim>\<open>exact\<close> a member of the user list that is no key of the details
  has no split.
\<close>

theorem allocation_shape_counterexample:
  "calculateSplits_v2 (3 / 100) ''equal'' [''A'', ''B'', ''C'', ''D'', ''E''] []
     = Inr [\<lparr>user = ''A'', share = - 1 / 100\<rparr>, \<lparr>user = ''B'', share = 1 / 100\<rparr>,
            \<lparr>user = ''C'', share = 1 / 100\<rparr>, \<lparr>user = ''D'', share = 1 / 100\<rparr>,
            \<lparr>user = ''E'', share = 1 / 100\<rparr>]
   \<and> share \<lparr>user = ''A'', share = - 1 / 100\<rparr> < 0
   \<and> calculateSplits_v1 100 ''exact'' [''A'', ''B''] [(''A'', 150), (''B'', - 50)]
     = Inr [\<lparr>user = ''A'', share = 150\<rparr>, \<lparr>user = ''B'', share = - 50\<rparr>]
   \<and> calculateSplits_v2 100 ''percentage'' [''A'', ''B''] [(''A'', 100)]
     = Inr [\<lparr>user = ''A'', share = 100\<rparr>]
   \<and> ''B'' \<notin> set (map user [\<lparr>user = ''A'', share = 100\<rparr>])"
  by code_simp

text \<open>
  C9, as amended. When an allocation succeeds: under \<^verbatim>\<open>equal\<close> there is one split per
  entry of the user list, in order, and every share is non-negative, except that nothing
  is said about the first share of the second revision; under \<^verbatim>\<open>percentage\<close> and
  \<^verbatim>\<open>exact\<close> there is one split per key of the details, in order, and in the second
  revision every share is non-negative.
\<close>

theorem successful_allocation_shape:
  "(calculateSplits_v2 amt splitType users splitDetails = Inr ss \<longrightarrow>
      (splitType = ''equal'' \<and> map user ss = users \<and> (\<forall>s \<in> set (tl ss). 0 \<le> share s))
    \<or> ((splitType = ''percentage'' \<or> splitType = ''exact'')
        \<and> map user ss = map fst splitDetails \<and> (\<forall>s \<in> set ss. 0 \<le> share s)))
   \<and> (calculateSplits_v1 amt splitType users splitDetails = Inr ss' \<longrightarrow>
      (splitType = ''equal'' \<and> map user ss' = users \<and> (\<forall>s \<in> set ss'. 0 \<le> share s))
    \<or> ((splitType = ''percentage'' \<or> splitType = ''exact'')
        \<and> map user ss' = map fst splitDetails))"
proof (intro conjI impI)
  assume r: "calculateSplits_v2 amt splitType users splitDetails = Inr ss"
  then have pos: "0 < amt" and ne: "users \<noteq> []"
    by (auto simp: calculateSplits_v2_def split: if_splits)
  from r consider
      (eq) "splitType = ''equal''" "ss = calculateEqualSplit amt users"
    | (pc) "splitType = ''percentage''" "calculatePercentageSplit amt splitDetails = Inr ss"
    | (ex) "splitType = ''exact''" "validateExactSplit amt splitDetails = Inr ss"
    by (auto simp: calculateSplits_v2_def split: if_splits)
  then show "(splitType = ''equal'' \<and> map user ss = users \<and> (\<forall>s \<in> set (tl ss). 0 \<le> share s))
    \<or> ((splitType = ''percentage'' \<or> splitType = ''exact'')
        \<and> map user ss = map fst splitDetails \<and> (\<forall>s \<in> set ss. 0 \<le> share s))"
  proof cases
    case eq
    from ne obtain u us where users: "users = u # us" by (cases users) auto
    have "0 \<le> toFixed2 (amt / of_nat (length users))"
      using pos by (intro toFixed2_nonneg) simp
    then have "\<forall>s \<in> set (tl ss). 0 \<le> share s"
      unfolding eq(2) users calculateEqualSplit_Cons Let_def by auto
    with eq show ?thesis by (simp add: calculateEqualSplit_users)
  next
    case pc
    note f = calculatePercentageSplit_Inr[OF pc(2)]
    have "\<forall>s \<in> set ss. 0 \<le> share s"
      unfolding f(1) using f(2) pos by (fastforce intro!: toFixed2_nonneg mult_nonneg_nonneg)
    moreover have "map user ss = map fst splitDetails"
      unfolding f(1) by (simp only: map_user_percentage)
    ultimately show ?thesis using pc(1) by simp
  next
    case ex
    note f = validateExactSplit_Inr[OF ex(2)]
    have "\<forall>s \<in> set ss. 0 \<le> share s"
      unfolding f(1) using f(2) by auto
    moreover have "map user ss = map fst splitDetails"
      unfolding f(1) by (simp only: map_user_percentage)
    ultimately show ?thesis using ex(1) by simp
  qed
next
  assume r: "calculateSplits_v1 amt splitType users splitDetails = Inr ss'"
  then have pos: "0 < amt"
    by (auto simp: calculateSplits_v1_def split: if_splits)
  from r consider
      (eq) "splitType = ''equal''"
           "ss' = map (\<lambda>userId. \<lparr>user = userId, share = toFixed2 (amt / of_nat (length users))\<rparr>) users"
    | (pc) "splitType = ''percentage''"
           "ss' = map (\<lambda>(userId, percentage). \<lparr>user = userId, share = toFixed2 ((percentage / 100) * amt)\<rparr>)
                      splitDetails"
    | (ex) "splitType = ''exact''"
           "ss' = map (\<lambda>(userId, val). \<lparr>user = userId, share = toFixed2 val\<rparr>) splitDetails"
    by (auto simp: calculateSplits_v1_def Let_def split: if_splits)
  then show "(splitType = ''equal'' \<and> map user ss' = users \<and> (\<forall>s \<in> set ss'. 0 \<le> share s))
    \<or> ((splitType = ''percentage'' \<or> splitType = ''exact'')
        \<and> map user ss' = map fst splitDetails)"
  proof cases
    case eq
    have "0 \<le> toFixed2 (amt / of_nat (length users))"
      using pos by (intro toFixed2_nonneg) simp
    with eq show ?thesis by (auto simp: comp_def)
  next
    case pc
    then show ?thesis by (simp only: map_user_percentage) simp
  next
    case ex
    then show ?thesis by (simp only: map_user_percentage) simp
  qed
qed

theorem successful_allocation_shape_witness:
  "map user [\<lparr>user = ''A'', share = 334 / 100\<rparr>, \<lparr>user = ''B'', share = 333 / 100\<rparr>,
             \<lparr>user = ''C'', share = 333 / 100\<rparr>] = [''A'', ''B'', ''C'']
   \<and> list_all (\<lambda>s. 0 \<le> share s)
         (tl [\<lparr>user = ''A'', share = 334 / 100\<rparr>, \<lparr>user = ''B'', share = 333 / 100\<rparr>,
              \<lparr>user = ''C'', share = 333 / 100\<rparr>])
   \<and> map user [\<lparr>user = ''A'', share = 4\<rparr>, \<lparr>user = ''B'', share = 6\<rparr>]
       = map fst [(''A'', 4 :: real), (''B'', 6)]"
proof -
  have r: "calculateSplits_v2 10 ''equal'' [''A'', ''B'', ''C''] []
             = Inr [\<lparr>user = ''A'', share = 334 / 100\<rparr>, \<lparr>user = ''B'', share = 333 / 100\<rparr>,
                    \<lparr>user = ''C'', share = 333 / 100\<rparr>]"
    by code_simp
  have r': "calculateSplits_v1 10 ''exact'' [''A'', ''B''] [(''A'', 4), (''B'', 6)]
             = Inr [\<lparr>user = ''A'', share = 4\<rparr>, \<lparr>user = ''B'', share = 6\<rparr>]"
    by code_simp
  have n: "''equal'' \<noteq> ''percentage'' \<and> ''equal'' \<noteq> ''exact'' \<and> ''exact'' \<noteq> ''equal''" by simp
  note t = successful_allocation_shape[of 10 "''equal''" "[''A'', ''B'', ''C'']" "[]"
             "[\<lparr>user = ''A'', share = 334 / 100\<rparr>, \<lparr>user = ''B'', share = 333 / 100\<rparr>,
               \<lparr>user = ''C'', share = 333 / 100\<rparr>]" "[]", THEN conjunct1, THEN mp, OF r]
  note t' = successful_allocation_shape[of 10 "''exact''" "[''A'', ''B'']" "[(''A'', 4), (''B'', 6)]"
             "[]" "[\<lparr>user = ''A'', share = 4\<rparr>, \<lparr>user = ''B'', share = 6\<rparr>]",
             THEN conjunct2, THEN mp, OF r']
  from t t' n show ?thesis unfolding list_all_iff by blast
qed

text \<open>
  C10. For the strategies \<^verbatim>\<open>percentage\<close> and \<^verbatim>\<open>exact\<close>, in both revisions and in
  double precision: an empty \<^verbatim>\<open>users\<close> list is rejected; with a non-empty list, the
  call succeeds whenever the total of the details passes the test of the code (and, in
  the second revision, no value is negative), and the users of the returned splits are
  then the keys of \<^verbatim>\<open>splitDetails\<close>, in their order; this holds of every successful
  call; and any two non-empty user lists give the same result. So a user of the list who
  is no key gets no split, and a key outside the list gets one.
\<close>

theorem details_keys_decide_participants:
  "(0 < amt \<longrightarrow>
        calculateSplits_v1_f64 amt splitType [] splitDetails = Inl NoUsersProvided
      \<and> calculateSplits_v2_f64 amt splitType [] splitDetails = Inl NoUsersProvided)
   \<and> (0 < amt \<and> users \<noteq> []
        \<and> \<not> offTarget (fold (\<lambda>val sum. fadd sum val) (map snd splitDetails) 0) 100 \<longrightarrow>
        (\<exists>ss. calculateSplits_v1_f64 amt ''percentage'' users splitDetails = Inr ss
              \<and> map user ss = map fst splitDetails))
   \<and> (0 < amt \<and> users \<noteq> []
        \<and> \<not> offTarget (fold (\<lambda>val sum. fadd sum val) (map snd splitDetails) 0) amt \<longrightarrow>
        (\<exists>ss. calculateSplits_v1_f64 amt ''exact'' users splitDetails = Inr ss
              \<and> map user ss = map fst splitDetails))
   \<and> (0 < amt \<and> users \<noteq> [] \<and> (\<forall>(u, p) \<in> set splitDetails. 0 \<le> p)
        \<and> \<not> offTarget (fold (\<lambda>val sum. fadd sum val) (map snd splitDetails) 0) 100 \<longrightarrow>
        (\<exists>ss. calculateSplits_v2_f64 amt ''percentage'' users splitDetails = Inr ss
              \<and> map user ss = map fst splitDetails))
   \<and> (0 < amt \<and> users \<noteq> [] \<and> (\<forall>(u, p) \<in> set splitDetails. 0 \<le> p)
        \<and> \<not> offTarget (fold (\<lambda>val sum. fadd sum val) (map snd splitDetails) 0) amt \<longrightarrow>
        (\<exists>ss. calculateSplits_v2_f64 amt ''exact'' users splitDetails = Inr ss
              \<and> map user ss = map fst splitDetails))
   \<and> (splitType = ''percentage'' \<or> splitType = ''exact'' \<longrightarrow>
        (\<forall>ss. calculateSplits_v1_f64 amt splitType users splitDetails = Inr ss
               \<longrightarrow> map user ss = map fst splitDetails)
      \<and> (\<forall>ss. calculateSplits_v2_f64 amt splitType users splitDetails = Inr ss
               \<longrightarrow> map user ss = map fst splitDetails)
      \<and> (users \<noteq> [] \<and> others \<noteq> [] \<longrightarrow>
            calculateSplits_v1_f64 amt splitType users splitDetails
              = calculateSplits_v1_f64 amt splitType others splitDetails
          \<and> calculateSplits_v2_f64 amt splitType users splitDetails
              = calculateSplits_v2_f64 amt splitType others splitDetails))"
proof -
  let ?total = "fold (\<lambda>val sum. fadd sum val) (map snd splitDetails) 0"
  have empty: "calculateSplits_v1_f64 amt splitType [] splitDetails = Inl NoUsersProvided
      \<and> calculateSplits_v2_f64 amt splitType [] splitDetails = Inl NoUsersProvided"
    if "0 < amt"
    using that by (simp add: calculateSplits_v1_f64_def calculateSplits_v2_f64_def)
  have p1: "\<exists>ss. calculateSplits_v1_f64 amt ''percentage'' users splitDetails = Inr ss
              \<and> map user ss = map fst splitDetails"
    if h: "0 < amt \<and> users \<noteq> [] \<and> \<not> offTarget ?total 100"
  proof (rule Inr_keys[where f = "\<lambda>u p. toFixed2_f64 (fmul (fdiv p 100) amt)"])
    from h show "calculateSplits_v1_f64 amt ''percentage'' users splitDetails
           = Inr (map (\<lambda>(u, p). \<lparr>user = u, share = toFixed2_f64 (fmul (fdiv p 100) amt)\<rparr>)
                      splitDetails)"
      by (simp add: calculateSplits_v1_f64_def)
  qed
  have e1: "\<exists>ss. calculateSplits_v1_f64 amt ''exact'' users splitDetails = Inr ss
              \<and> map user ss = map fst splitDetails"
    if h: "0 < amt \<and> users \<noteq> [] \<and> \<not> offTarget ?total amt"
  proof (rule Inr_keys[where f = "\<lambda>u p. toFixed2_f64 p"])
    from h show "calculateSplits_v1_f64 amt ''exact'' users splitDetails
           = Inr (map (\<lambda>(u, p). \<lparr>user = u, share = toFixed2_f64 p\<rparr>) splitDetails)"
      by (simp add: calculateSplits_v1_f64_def)
  qed
  have p2: "\<exists>ss. calculateSplits_v2_f64 amt ''percentage'' users splitDetails = Inr ss
              \<and> map user ss = map fst splitDetails"
    if h: "0 < amt \<and> users \<noteq> [] \<and> (\<forall>(u, p) \<in> set splitDetails. 0 \<le> p)
           \<and> \<not> offTarget ?total 100"
  proof (rule Inr_keys[where f = "\<lambda>u p. toFixed2_f64 (fdiv (fmul amt p) 100)"])
    from h have nn: "\<forall>(u, p) \<in> set splitDetails. 0 \<le> p" and ok: "\<not> offTarget ?total 100"
      by (rule conjunct2[THEN conjunct2, THEN conjunct1],
          rule conjunct2[THEN conjunct2, THEN conjunct2])
    from h have pos: "0 < amt" "users \<noteq> []" by (rule conjunct1, rule conjunct2[THEN conjunct1])
    from pos show "calculateSplits_v2_f64 amt ''percentage'' users splitDetails
           = Inr (map (\<lambda>(u, p). \<lparr>user = u, share = toFixed2_f64 (fdiv (fmul amt p) 100)\<rparr>)
                      splitDetails)"
      by (simp add: calculateSplits_v2_f64_def calculatePercentageSplit_f64_ok[OF nn ok])
  qed
  have e2: "\<exists>ss. calculateSplits_v2_f64 amt ''exact'' users splitDetails = Inr ss
              \<and> map user ss = map fst splitDetails"
    if h: "0 < amt \<and> users \<noteq> [] \<and> (\<forall>(u, p) \<in> set splitDetails. 0 \<le> p)
           \<and> \<not> offTarget ?total amt"
  proof (rule Inr_keys[where f = "\<lambda>u p. p"])
    from h have nn: "\<forall>(u, p) \<in> set splitDetails. 0 \<le> p" and ok: "\<not> offTarget ?total amt"
      by (rule conjunct2[THEN conjunct2, THEN conjunct1],
          rule conjunct2[THEN conjunct2, THEN conjunct2])
    from h have pos: "0 < amt" "users \<noteq> []" by (rule conjunct1, rule conjunct2[THEN conjunct1])
    from pos show "calculateSplits_v2_f64 amt ''exact'' users splitDetails
           = Inr (map (\<lambda>(u, p). \<lparr>user = u, share = p\<rparr>) splitDetails)"
      by (simp add: calculateSplits_v2_f64_def validateExactSplit_f64_ok[OF nn ok])
  qed
  have k1: "map user ss = map fst splitDetails"
    if st: "splitType = ''percentage'' \<or> splitType = ''exact''"
      and r: "calculateSplits_v1_f64 amt splitType users splitDetails = Inr ss" for ss
    using st
  proof
    assume "splitType = ''percentage''"
    with r have "ss = map (\<lambda>(u, p). \<lparr>user = u, share = toFixed2_f64 (fmul (fdiv p 100) amt)\<rparr>)
                         splitDetails"
      by (simp add: calculateSplits_v1_f64_def Let_def split: if_splits)
    then show ?thesis by (simp only: map_user_percentage)
  next
    assume "splitType = ''exact''"
    with r have "ss = map (\<lambda>(u, p). \<lparr>user = u, share = toFixed2_f64 p\<rparr>) splitDetails"
      by (simp add: calculateSplits_v1_f64_def Let_def split: if_splits)
    then show ?thesis by (simp only: map_user_percentage)
  qed
  have k2: "map user ss = map fst splitDetails"
    if st: "splitType = ''percentage'' \<or> splitType = ''exact''"
      and r: "calculateSplits_v2_f64 amt splitType users splitDetails = Inr ss" for ss
    using st
  proof
    assume "splitType = ''percentage''"
    with r have "calculatePercentageSplit_f64 amt splitDetails = Inr ss"
      by (simp add: calculateSplits_v2_f64_def split: if_splits)
    then have "ss = map (\<lambda>(u, p). \<lparr>user = u, share = toFixed2_f64 (fdiv (fmul amt p) 100)\<rparr>)
                        splitDetails"
      by (rule calculatePercentageSplit_f64_Inr)
    then show ?thesis by (simp only: map_user_percentage)
  next
    assume "splitType = ''exact''"
    with r have "validateExactSplit_f64 amt splitDetails = Inr ss"
      by (simp add: calculateSplits_v2_f64_def split: if_splits)
    then have "ss = map (\<lambda>(u, p). \<lparr>user = u, share = p\<rparr>) splitDetails"
      by (rule validateExactSplit_f64_Inr)
    then show ?thesis by (simp only: map_user_percentage)
  qed
  have ind: "calculateSplits_v1_f64 amt splitType users splitDetails
              = calculateSplits_v1_f64 amt splitType others splitDetails
          \<and> calculateSplits_v2_f64 amt splitType users splitDetails
              = calculateSplits_v2_f64 amt splitType others splitDetails"
    if st: "splitType = ''percentage'' \<or> splitType = ''exact''"
      and ne: "users \<noteq> [] \<and> others \<noteq> []"
    using st
  proof
    assume "splitType = ''percentage''"
    with ne show ?thesis by (simp add: calculateSplits_v1_f64_def calculateSplits_v2_f64_def)
  next
    assume "splitType = ''exact''"
    with ne show ?thesis by (simp add: calculateSplits_v1_f64_def calculateSplits_v2_f64_def)
  qed
  show ?thesis
  proof (intro conjI impI allI)
    assume "0 < amt"
    then show "calculateSplits_v1_f64 amt splitType [] splitDetails = Inl NoUsersProvided"
      by (rule empty[THEN conjunct1])
  next
    assume "0 < amt"
    then show "calculateSplits_v2_f64 amt splitType [] splitDetails = Inl NoUsersProvided"
      by (rule empty[THEN conjunct2])
  next
    assume "0 < amt \<and> users \<noteq> [] \<and> \<not> offTarget ?total 100"
    then show "\<exists>ss. calculateSplits_v1_f64 amt ''percentage'' users splitDetails = Inr ss
              \<and> map user ss = map fst splitDetails" by (rule p1)
  next
    assume "0 < amt \<and> users \<noteq> [] \<and> \<not> offTarget ?total amt"
    then show "\<exists>ss. calculateSplits_v1_f64 amt ''exact'' users splitDetails = Inr ss
              \<and> map user ss = map fst splitDetails" by (rule e1)
  next
    assume "0 < amt \<and> users \<noteq> [] \<and> (\<forall>(u, p) \<in> set splitDetails. 0 \<le> p)
           \<and> \<not> offTarget ?total 100"
    then show "\<exists>ss. calculateSplits_v2_f64 amt ''percentage'' users splitDetails = Inr ss
              \<and> map user ss = map fst splitDetails" by (rule p2)
  next
    assume "0 < amt \<and> users \<noteq> [] \<and> (\<forall>(u, p) \<in> set splitDetails. 0 \<le> p)
           \<and> \<not> offTarget ?total amt"
    then show "\<exists>ss. calculateSplits_v2_f64 amt ''exact'' users splitDetails = Inr ss
              \<and> map user ss = map fst splitDetails" by (rule e2)
  next
    fix ss
    assume "splitType = ''percentage'' \<or> splitType = ''exact''"
      and "calculateSplits_v1_f64 amt splitType users splitDetails = Inr ss"
    then show "map user ss = map fst splitDetails" by (rule k1)
  next
    fix ss
    assume "splitType = ''percentage'' \<or> splitType = ''exact''"
      and "calculateSplits_v2_f64 amt splitType users splitDetails = Inr ss"
    then show "map user ss = map fst splitDetails" by (rule k2)
  next
    assume "splitType = ''percentage'' \<or> splitType = ''exact''" and "users \<noteq> [] \<and> others \<noteq> []"
    then show "calculateSplits_v1_f64 amt splitType users splitDetails
              = calculateSplits_v1_f64 amt splitType others splitDetails"
      by (rule ind[THEN conjunct1])
  next
    assume "splitType = ''percentage'' \<or> splitType = ''exact''" and "users \<noteq> [] \<and> others \<noteq> []"
    then show "calculateSplits_v2_f64 amt splitType users splitDetails
              = calculateSplits_v2_f64 amt splitType others splitDetails"
      by (rule ind[THEN conjunct2])
  qed
qed

theorem details_keys_decide_participants_witness:
  "calculateSplits_v1_f64 100 ''exact'' [] [(''A'', 60), (''C'', 40)] = Inl NoUsersProvided
   \<and> calculateSplits_v2_f64 100 ''exact'' [] [(''A'', 60), (''C'', 40)] = Inl NoUsersProvided
   \<and> (\<exists>ss. calculateSplits_v1_f64 100 ''percentage'' [''A'', ''B''] [(''A'', 60), (''C'', 40)] = Inr ss
          \<and> map user ss = [''A'', ''C''])
   \<and> (\<exists>ss. calculateSplits_v1_f64 100 ''exact'' [''A'', ''B''] [(''A'', 60), (''C'', 40)] = Inr ss
          \<and> map user ss = [''A'', ''C''])
   \<and> (\<exists>ss. calculateSplits_v2_f64 100 ''percentage'' [''A'', ''B''] [(''A'', 60), (''C'', 40)] = Inr ss
          \<and> map user ss = [''A'', ''C''])
   \<and> (\<exists>ss. calculateSplits_v2_f64 100 ''exact'' [''A'', ''B''] [(''A'', 60), (''C'', 40)] = Inr ss
          \<and> map user ss = [''A'', ''C''])
   \<and> calculateSplits_v1_f64 100 ''exact'' [''A'', ''B''] [(''A'', 60), (''C'', 40)]
       = calculateSplits_v1_f64 100 ''exact'' [''Z''] [(''A'', 60), (''C'', 40)]
   \<and> calculateSplits_v2_f64 100 ''exact'' [''A'', ''B''] [(''A'', 60), (''C'', 40)]
       = calculateSplits_v2_f64 100 ''exact'' [''Z''] [(''A'', 60), (''C'', 40)]"
proof -
  let ?sd = "[(''A'', 60), (''C'', 40 :: real)]"
  have pos: "(0::real) < 100" by simp
  have ne: "[''A'', ''B''] \<noteq> []" by simp
  have ne2: "[''A'', ''B''] \<noteq> [] \<and> [''Z''] \<noteq> ([] :: string list)" by simp
  have nn: "\<forall>(u, p) \<in> set ?sd. 0 \<le> p" by simp
  have ok: "\<not> offTarget (fold (\<lambda>val sum. fadd sum val) (map snd ?sd) 0) 100"
    using fl_cent_pos by (simp add: offTarget_def fadd_def fsub_def fl_numeral fl_0)
  have st: "''exact'' = ''percentage'' \<or> ''exact'' = ''exact''" by simp
  have keys: "map fst ?sd = [''A'', ''C'']" by simp
  note t = details_keys_decide_participants[of 100 "''exact''" ?sd "[''A'', ''B'']" "[''Z'']"]
  note t1 = t[THEN conjunct1, THEN mp, OF pos]
  note t2 = t[THEN conjunct2, THEN conjunct1, THEN mp, OF conjI[OF pos conjI[OF ne ok]]]
  note t3 = t[THEN conjunct2, THEN conjunct2, THEN conjunct1, THEN mp,
              OF conjI[OF pos conjI[OF ne ok]]]
  note t4 = t[THEN conjunct2, THEN conjunct2, THEN conjunct2, THEN conjunct1, THEN mp,
              OF conjI[OF pos conjI[OF ne conjI[OF nn ok]]]]
  note t5 = t[THEN conjunct2, THEN conjunct2, THEN conjunct2, THEN conjunct2, THEN conjunct1,
              THEN mp, OF conjI[OF pos conjI[OF ne conjI[OF nn ok]]]]
  note t6 = t[THEN conjunct2, THEN conjunct2, THEN conjunct2, THEN conjunct2, THEN conjunct2,
              THEN mp, OF st, THEN conjunct2, THEN conjunct2, THEN mp, OF ne2]
  from t2 have w2: "\<exists>ss. calculateSplits_v1_f64 100 ''percentage'' [''A'', ''B''] ?sd = Inr ss
          \<and> map user ss = [''A'', ''C'']" by (simp only: keys)
  from t3 have w3: "\<exists>ss. calculateSplits_v1_f64 100 ''exact'' [''A'', ''B''] ?sd = Inr ss
          \<and> map user ss = [''A'', ''C'']" by (simp only: keys)
  from t4 have w4: "\<exists>ss. calculateSplits_v2_f64 100 ''percentage'' [''A'', ''B''] ?sd = Inr ss
          \<and> map user ss = [''A'', ''C'']" by (simp only: keys)
  from t5 have w5: "\<exists>ss. calculateSplits_v2_f64 100 ''exact'' [''A'', ''B''] ?sd = Inr ss
          \<and> map user ss = [''A'', ''C'']" by (simp only: keys)
  show ?thesis
    by (intro conjI, rule t1[THEN conjunct1], rule t1[THEN conjunct2], rule w2, rule w3,
        rule w4, rule w5, rule t6[THEN conjunct1], rule t6[THEN conjunct2])
qed

section \<open>Properties of the debt simplification\<close>

lemma received_Nil [simp]: "received [] X = 0" by (simp add: received_def)
lemma paid_Nil [simp]: "paid [] X = 0" by (simp add: paid_def)
lemma credit_Nil [simp]: "credit X [] = 0" by (simp add: credit_def)
lemma credit_Cons [simp]: "credit X ((u, a) # es) = (if u = X then a else 0) + credit X es"
  by (simp add: credit_def)
lemma received_Cons [simp]:
  "received (t # ts) X = (if txTo t = X then txAmount t else 0) + received ts X"
  by (simp add: received_def)
lemma paid_Cons [simp]:
  "paid (t # ts) X = (if txFrom t = X then txAmount t else 0) + paid ts X"
  by (simp add: paid_def)

lemma credit_insort_key: "credit X (insort_key f e es) = credit X (e # es)"
  by (induction es) (auto simp: credit_def)

lemma credit_sortDescending: "credit X (sortDescending es) = credit X es"
  unfolding sortDescending_def
proof (induction es)
  case Nil
  then show ?case by simp
next
  case (Cons e es)
  have "credit X (sort_key (\<lambda>e. - snd e) (e # es))
          = credit X (e # sort_key (\<lambda>e. - snd e) es)"
    by (simp add: credit_insort_key)
  also have "\<dots> = credit X (e # es)"
    using Cons by (cases e) simp
  finally show ?case .
qed

lemma sum_insort_key:
  "sum_list (map snd (insort_key f e es)) = snd e + (sum_list (map snd es) :: real)"
  by (induction es) auto

lemma sum_sortDescending: "sum_list (map snd (sortDescending es)) = sum_list (map snd es)"
  unfolding sortDescending_def
  by (induction es) (auto simp: sum_insort_key)

lemma set_sortDescending: "set (sortDescending es) = set es"
  by (simp add: sortDescending_def)

lemma wholePositive_sum_zero:
  assumes "wholePositive es" "sum_list (map snd es) = 0" shows "es = []"
proof (cases es)
  case Nil then show ?thesis .
next
  case (Cons e es')
  have "0 \<le> sum_list (map snd es')"
    using assms(1) unfolding Cons wholePositive_def
    by (intro sum_list_nonneg) auto
  moreover have "0 < snd e" using assms(1) unfolding Cons wholePositive_def by simp
  ultimately show ?thesis using assms(2) unfolding Cons by simp
qed

text \<open>
  In exact arithmetic, entries of whole cents that cancel are settled in full. The loop in
  double precision agrees with the exact one on whole numbers (\<open>greedyLoop_f64_whole\<close>
  below), and only there is this lemma used for it.
\<close>

lemma greedyLoop_settles:
  assumes "wholePositive ds" "wholePositive cs"
    and "sum_list (map snd ds) = sum_list (map snd cs)"
  shows "received (greedyLoop ds cs) X = credit X cs \<and> paid (greedyLoop ds cs) X = credit X ds"
  using assms
proof (induction ds cs rule: greedyLoop.induct)
  case (1 creditors)
  then have "creditors = []" by (simp add: wholePositive_sum_zero)
  then show ?case by simp
next
  case (2 dId dAmount debtors)
  then have "(dId, dAmount) # debtors = []" by (intro wholePositive_sum_zero) simp_all
  then show ?case by simp
next
  case (3 dId dAmount debtors cId cAmount creditors)
  let ?m = "min dAmount cAmount"
  let ?D = "if dAmount - ?m < 1 / 100 then debtors else (dId, dAmount - ?m) # debtors"
  let ?C = "if cAmount - ?m < 1 / 100 then creditors else (cId, cAmount - ?m) # creditors"
  from "3.prems"(1) have d: "cents dAmount" "0 < dAmount" and wd: "wholePositive debtors"
    by (simp_all add: wholePositive_def)
  from "3.prems"(2) have c: "cents cAmount" "0 < cAmount" and wc: "wholePositive creditors"
    by (simp_all add: wholePositive_def)
  have m: "0 < ?m" "cents ?m" using d c by (simp_all add: min_def)
  have dr: "cents (dAmount - ?m)" "0 \<le> dAmount - ?m" using d m by (simp_all add: cents_diff)
  have cr: "cents (cAmount - ?m)" "0 \<le> cAmount - ?m" using c m by (simp_all add: cents_diff)
  have dz: "dAmount - ?m < 1 / 100 \<longleftrightarrow> dAmount - ?m = 0"
    using cents_small[OF dr] by auto
  have cz: "cAmount - ?m < 1 / 100 \<longleftrightarrow> cAmount - ?m = 0"
    using cents_small[OF cr] by auto
  have wD: "wholePositive ?D" using wd dr dz by (auto simp: wholePositive_def)
  have wC: "wholePositive ?C" using wc cr cz by (auto simp: wholePositive_def)
  have sD: "sum_list (map snd ?D) = sum_list (map snd debtors) + (dAmount - ?m)"
    using dz by auto
  have sC: "sum_list (map snd ?C) = sum_list (map snd creditors) + (cAmount - ?m)"
    using cz by auto
  have sums: "sum_list (map snd ?D) = sum_list (map snd ?C)"
    unfolding sD sC using "3.prems"(3) by simp
  have cD: "credit X ?D = credit X debtors + (if dId = X then dAmount - ?m else 0)"
    using dz by auto
  have cC: "credit X ?C = credit X creditors + (if cId = X then cAmount - ?m else 0)"
    using cz by auto
  from "3.IH"[OF wD wC sums]
  have ih: "received (greedyLoop ?D ?C) X = credit X ?C" "paid (greedyLoop ?D ?C) X = credit X ?D"
    by simp_all
  have step: "greedyLoop ((dId, dAmount) # debtors) ((cId, cAmount) # creditors)
                = \<lparr>txFrom = dId, txTo = cId, txAmount = ?m\<rparr> # greedyLoop ?D ?C"
    using m by (simp add: toFixed2_cents del: min_less_iff_conj)
  show ?case
    unfolding step received_Cons paid_Cons ih cD cC by simp
qed


lemma wholePositive_creditorsOf: "wholePositive (creditorsOf bs)"
  unfolding wholePositive_def creditorsOf_def
  by (auto simp: Let_def cents_toFixed2 split: number.splits if_splits)

lemma wholePositive_debtorsOf: "wholePositive (debtorsOf bs)"
  unfolding wholePositive_def debtorsOf_def
  by (auto simp: Let_def cents_toFixed2 cents_minus abs_if split: number.splits if_splits)

lemma wholePositive_sortDescending: "wholePositive (sortDescending es) = wholePositive es"
  by (simp add: wholePositive_def set_sortDescending)

lemma creditorsOf_Cons:
  "creditorsOf ((u, Num x) # bs) = (if toFixed2 x > 0 then [(u, toFixed2 x)] else []) @ creditorsOf bs"
  by (simp add: creditorsOf_def Let_def)

lemma debtorsOf_Cons:
  "debtorsOf ((u, Num x) # bs) = (if toFixed2 x < 0 then [(u, - toFixed2 x)] else []) @ debtorsOf bs"
  by (simp add: debtorsOf_def Let_def)

lemma credit_append: "credit X (es @ fs) = credit X es + credit X fs"
  by (simp add: credit_def)

lemma numeric_Cons: "numeric ((u, x) # nb) = (u, Num x) # numeric nb"
  by (simp add: numeric_def)

lemma credit_balance:
  "credit X (creditorsOf (numeric nb)) - credit X (debtorsOf (numeric nb))
     = sum_list (map (\<lambda>(u, x). toFixed2 x) (filter (\<lambda>e. fst e = X) nb))"
proof (induction nb)
  case Nil
  then show ?case by (simp add: numeric_def creditorsOf_def debtorsOf_def)
next
  case (Cons e nb)
  obtain u x where e: "e = (u, x)" by (cases e)
  from Cons show ?case
    by (simp add: e numeric_Cons creditorsOf_Cons debtorsOf_Cons credit_append)
qed

lemma total_balance:
  "sum_list (map snd (creditorsOf (numeric nb))) - sum_list (map snd (debtorsOf (numeric nb)))
     = sum_list (map (\<lambda>(u, x). toFixed2 x) nb)"
proof (induction nb)
  case Nil
  then show ?case by (simp add: numeric_def creditorsOf_def debtorsOf_def)
next
  case (Cons e nb)
  obtain u x where e: "e = (u, x)" by (cases e)
  from Cons show ?case
    by (simp add: e numeric_Cons creditorsOf_Cons debtorsOf_Cons)
qed

lemma filter_key_distinct:
  assumes "distinct (map fst nb)"
  shows "sum_list (map (\<lambda>(u, x). g x) (filter (\<lambda>e. fst e = X) nb))
           = (case map_of nb X of None \<Rightarrow> 0 | Some x \<Rightarrow> (g x :: real))"
  using assms
proof (induction nb)
  case Nil
  then show ?case by simp
next
  case (Cons e nb)
  obtain u x where e: "e = (u, x)" by (cases e)
  show ?case
  proof (cases "u = X")
    case True
    with Cons.prems have "X \<notin> fst ` set nb" by (simp add: e)
    then have "filter (\<lambda>e. fst e = X) nb = []" by (auto simp: filter_empty_conv)
    with True show ?thesis by (simp add: e)
  next
    case False
    with Cons show ?thesis by (simp add: e)
  qed
qed

lemma simplifyDebts_flows:
  assumes "sum_list (map (\<lambda>(u, x). toFixed2 x) nb) = 0"
  shows "netFlow (simplifyDebts (numeric nb)) X
           = sum_list (map (\<lambda>(u, x). toFixed2 x) (filter (\<lambda>e. fst e = X) nb))"
proof -
  let ?D = "sortDescending (debtorsOf (numeric nb))"
  let ?C = "sortDescending (creditorsOf (numeric nb))"
  have wD: "wholePositive ?D" by (simp add: wholePositive_sortDescending wholePositive_debtorsOf)
  have wC: "wholePositive ?C" by (simp add: wholePositive_sortDescending wholePositive_creditorsOf)
  have sums: "sum_list (map snd ?D) = sum_list (map snd ?C)"
    unfolding sum_sortDescending using total_balance[of nb] assms by simp
  from greedyLoop_settles[OF wD wC sums, of X]
  have "netFlow (simplifyDebts (numeric nb)) X
          = credit X (creditorsOf (numeric nb)) - credit X (debtorsOf (numeric nb))"
    by (simp add: netFlow_def simplifyDebts_def credit_sortDescending)
  then show ?thesis by (simp only: credit_balance)
qed

lemma greedyLoop_parties:
  "t \<in> set (greedyLoop ds cs) \<Longrightarrow> txFrom t \<in> fst ` set ds \<and> txTo t \<in> fst ` set cs"
proof (induction ds cs rule: greedyLoop.induct)
  case (3 dId dAmount debtors cId cAmount creditors)
  let ?m = "min dAmount cAmount"
  let ?D = "if dAmount - ?m < 1 / 100 then debtors else (dId, dAmount - ?m) # debtors"
  let ?C = "if cAmount - ?m < 1 / 100 then creditors else (cId, cAmount - ?m) # creditors"
  let ?T = "\<lparr>txFrom = dId, txTo = cId, txAmount = toFixed2 ?m\<rparr>"
  from "3.prems" have "t \<in> set (if ?m > 0 then [?T] else []) \<or> t \<in> set (greedyLoop ?D ?C)"
    by (simp only: greedyLoop.simps set_append Un_iff)
  moreover have "t = ?T" if "t \<in> set (if ?m > 0 then [?T] else [])"
    using that by (cases "?m > 0") simp_all
  ultimately consider
      (head) "t = ?T"
    | (rest) "t \<in> set (greedyLoop ?D ?C)"
    by blast
  then show ?case
  proof cases
    case head
    then show ?thesis by simp
  next
    case rest
    from "3.IH"[OF rest] have "txFrom t \<in> fst ` set ?D" "txTo t \<in> fst ` set ?C" by simp_all
    moreover have "fst ` set ?D \<subseteq> fst ` set ((dId, dAmount) # debtors)" by auto
    moreover have "fst ` set ?C \<subseteq> fst ` set ((cId, cAmount) # creditors)" by auto
    ultimately show ?thesis by blast
  qed
qed simp_all

lemma paymentLoop_parties:
  "t \<in> set (paymentLoop cs ds) \<Longrightarrow> txFrom t \<in> fst ` set ds \<and> txTo t \<in> fst ` set cs"
proof (induction cs ds rule: paymentLoop.induct)
  case (3 cId cAmount creditors dId dAmount debtors)
  let ?m = "min cAmount dAmount"
  let ?C = "if cAmount - ?m \<le> 1 / 100 then creditors else (cId, cAmount - ?m) # creditors"
  let ?D = "if dAmount - ?m \<le> 1 / 100 then debtors else (dId, dAmount - ?m) # debtors"
  let ?T = "\<lparr>txFrom = dId, txTo = cId, txAmount = toFixed2 ?m\<rparr>"
  from "3.prems" have "t \<in> set (if ?m > 0 then [?T] else []) \<or> t \<in> set (paymentLoop ?C ?D)"
    by (simp only: paymentLoop.simps set_append Un_iff)
  moreover have "t = ?T" if "t \<in> set (if ?m > 0 then [?T] else [])"
    using that by (cases "?m > 0") simp_all
  ultimately consider
      (head) "t = ?T"
    | (rest) "t \<in> set (paymentLoop ?C ?D)"
    by blast
  then show ?case
  proof cases
    case head
    then show ?thesis by simp
  next
    case rest
    from "3.IH"[OF rest] have "txFrom t \<in> fst ` set ?D" "txTo t \<in> fst ` set ?C" by simp_all
    moreover have "fst ` set ?D \<subseteq> fst ` set ((dId, dAmount) # debtors)" by auto
    moreover have "fst ` set ?C \<subseteq> fst ` set ((cId, cAmount) # creditors)" by auto
    ultimately show ?thesis by blast
  qed
qed simp_all

lemma creditorsOf_keys:
  "(u, a) \<in> set (creditorsOf bs) \<Longrightarrow> \<exists>x. (u, Num x) \<in> set bs \<and> 0 < toFixed2 x"
  by (auto simp: creditorsOf_def Let_def split: number.splits if_splits)

lemma debtorsOf_keys:
  "(u, a) \<in> set (debtorsOf bs) \<Longrightarrow> \<exists>x. (u, Num x) \<in> set bs \<and> toFixed2 x < 0"
  by (auto simp: debtorsOf_def Let_def split: number.splits if_splits)

lemma planCreditors_keys:
  "(u, a) \<in> set (planCreditors bs) \<Longrightarrow> \<exists>x. (u, Num x) \<in> set bs \<and> 0 < x"
  by (auto simp: planCreditors_def split: number.splits if_splits)

lemma planDebtors_keys:
  "(u, a) \<in> set (planDebtors bs) \<Longrightarrow> \<exists>x. (u, Num x) \<in> set bs \<and> x < 0"
  by (auto simp: planDebtors_def split: number.splits if_splits)

lemma distinct_key_value:
  "distinct (map fst bs) \<Longrightarrow> map_of bs X = Some v \<Longrightarrow> (X, w) \<in> set bs \<Longrightarrow> w = v"
  by (metis map_of_is_SomeI option.inject)

lemma greedyLoop_f64_whole:
  assumes "wholeEntries ds" "wholeEntries cs"
  shows "greedyLoop_f64 ds cs = greedyLoop ds cs"
  using assms
proof (induction ds cs rule: greedyLoop.induct)
  case (1 creditors)
  then show ?case by simp
next
  case (2 dId dAmount debtors)
  then show ?case by simp
next
  case (3 dId dAmount debtors cId cAmount creditors)
  let ?m = "min dAmount cAmount"
  let ?D = "if dAmount - ?m < 1 / 100 then debtors else (dId, dAmount - ?m) # debtors"
  let ?C = "if cAmount - ?m < 1 / 100 then creditors else (cId, cAmount - ?m) # creditors"
  from "3.prems"(1) have d: "dAmount \<in> \<int>" "0 < dAmount" "dAmount \<le> 10 ^ 12"
    and wd: "wholeEntries debtors"
    by (simp_all add: wholeEntries_def)
  from "3.prems"(2) have c: "cAmount \<in> \<int>" "0 < cAmount" "cAmount \<le> 10 ^ 12"
    and wc: "wholeEntries creditors"
    by (simp_all add: wholeEntries_def)
  have m: "?m \<in> \<int>" "0 < ?m" "?m \<le> 10 ^ 12" "?m \<le> dAmount" "?m \<le> cAmount"
    using d c by (simp_all add: min_def)
  have dr: "dAmount - ?m \<in> \<int>" "0 \<le> dAmount - ?m" "dAmount - ?m \<le> 10 ^ 12"
  proof -
    show "dAmount - ?m \<in> \<int>" using d(1) m(1) by (rule Ints_diff)
    show "0 \<le> dAmount - ?m" using m(4) by linarith
    show "dAmount - ?m \<le> 10 ^ 12" using d(3) m(2) by linarith
  qed
  have cr: "cAmount - ?m \<in> \<int>" "0 \<le> cAmount - ?m" "cAmount - ?m \<le> 10 ^ 12"
  proof -
    show "cAmount - ?m \<in> \<int>" using c(1) m(1) by (rule Ints_diff)
    show "0 \<le> cAmount - ?m" using m(5) by linarith
    show "cAmount - ?m \<le> 10 ^ 12" using c(3) m(2) by linarith
  qed
  have fd: "fsub dAmount ?m = dAmount - ?m"
    unfolding fsub_def using dr by (intro fl_whole) simp_all
  have fc: "fsub cAmount ?m = cAmount - ?m"
    unfolding fsub_def using cr by (intro fl_whole) simp_all
  have td: "dAmount - ?m < fl (1 / 100) \<longleftrightarrow> dAmount - ?m < 1 / 100"
    using dr(1,2) by (rule whole_small_iff)
  have tc: "cAmount - ?m < fl (1 / 100) \<longleftrightarrow> cAmount - ?m < 1 / 100"
    using cr(1,2) by (rule whole_small_iff)
  have tm: "toFixed2_f64 ?m = toFixed2 ?m"
    using toFixed2_f64_whole[of ?m] toFixed2_whole[of ?m] m by simp
  have wD: "wholeEntries ?D" using wd dr by (auto simp: wholeEntries_def)
  have wC: "wholeEntries ?C" using wc cr by (auto simp: wholeEntries_def)
  have ih: "greedyLoop_f64 ?D ?C = greedyLoop ?D ?C" using wD wC by (rule "3.IH")
  have "greedyLoop_f64 ((dId, dAmount) # debtors) ((cId, cAmount) # creditors)
          = (if ?m > 0 then [\<lparr>txFrom = dId, txTo = cId, txAmount = toFixed2 ?m\<rparr>] else [])
            @ greedyLoop_f64 ?D ?C"
    by (simp only: greedyLoop_f64.simps fd fc td tc tm)
  also have "\<dots> = greedyLoop ((dId, dAmount) # debtors) ((cId, cAmount) # creditors)"
    by (simp only: greedyLoop.simps ih)
  finally show ?case .
qed


lemma creditorsOf_f64_Cons:
  "creditorsOf_f64 ((u, Num x) # bs)
     = (if toFixed2_f64 x > 0 then [(u, toFixed2_f64 x)] else []) @ creditorsOf_f64 bs"
  by (simp add: creditorsOf_f64_def Let_def)

lemma debtorsOf_f64_Cons:
  "debtorsOf_f64 ((u, Num x) # bs)
     = (if toFixed2_f64 x < 0 then [(u, - toFixed2_f64 x)] else []) @ debtorsOf_f64 bs"
  by (simp add: debtorsOf_f64_def Let_def)

lemma wholeEntries_append: "wholeEntries (es @ fs) \<longleftrightarrow> wholeEntries es \<and> wholeEntries fs"
  by (auto simp: wholeEntries_def)

lemma wholeEntries_sortDescending: "wholeEntries (sortDescending es) = wholeEntries es"
  by (simp add: wholeEntries_def set_sortDescending)

lemma whole_lists:
  assumes "\<forall>(u, x) \<in> set nb. x \<in> \<int> \<and> \<bar>x\<bar> \<le> 10 ^ 12"
  shows "creditorsOf_f64 (numeric nb) = creditorsOf (numeric nb)
       \<and> debtorsOf_f64 (numeric nb) = debtorsOf (numeric nb)
       \<and> wholeEntries (creditorsOf (numeric nb)) \<and> wholeEntries (debtorsOf (numeric nb))"
  using assms
proof (induction nb)
  case Nil
  then show ?case
    by (simp add: numeric_def creditorsOf_def debtorsOf_def creditorsOf_f64_def debtorsOf_f64_def
                  wholeEntries_def)
next
  case (Cons e nb)
  obtain u x where e: "e = (u, x)" by (cases e)
  from Cons.prems have x: "x \<in> \<int>" "\<bar>x\<bar> \<le> 10 ^ 12"
    and rest: "\<forall>(u, x) \<in> set nb. x \<in> \<int> \<and> \<bar>x\<bar> \<le> 10 ^ 12"
    by (simp_all add: e)
  note ih = Cons.IH[OF rest]
  have t: "toFixed2_f64 x = x" using x by (rule toFixed2_f64_whole)
  have t': "toFixed2 x = x" using x(1) by (rule toFixed2_whole)
  have hi: "x \<le> 10 ^ 12" "- x \<le> 10 ^ 12" using x(2) by linarith+
  have mx: "- x \<in> \<int>" using x(1) by (rule Ints_minus)
  have w1: "wholeEntries (if x > 0 then [(u, x)] else [])"
    using x(1) hi(1) by (simp add: wholeEntries_def)
  have w2: "wholeEntries (if x < 0 then [(u, - x)] else [])"
    using mx hi(2) by (simp add: wholeEntries_def)
  from ih w1 w2 show ?case
    by (simp only: e numeric_Cons creditorsOf_f64_Cons debtorsOf_f64_Cons creditorsOf_Cons
                   debtorsOf_Cons t t' wholeEntries_append simp_thms)
qed

lemma simplifyDebts_f64_whole:
  assumes "\<forall>(u, x) \<in> set nb. x \<in> \<int> \<and> \<bar>x\<bar> \<le> 10 ^ 12"
  shows "simplifyDebts_f64 (numeric nb) = simplifyDebts (numeric nb)"
proof -
  note w = whole_lists[OF assms]
  have "greedyLoop_f64 (sortDescending (debtorsOf (numeric nb)))
                       (sortDescending (creditorsOf (numeric nb)))
        = greedyLoop (sortDescending (debtorsOf (numeric nb)))
                     (sortDescending (creditorsOf (numeric nb)))"
    using w by (intro greedyLoop_f64_whole) (simp_all only: wholeEntries_sortDescending)
  then show ?thesis using w by (simp only: simplifyDebts_f64_def simplifyDebts_def)
qed

lemma sum_toFixed2_whole:
  assumes "\<forall>(u, x) \<in> set nb. x \<in> \<int> \<and> \<bar>x\<bar> \<le> 10 ^ 12"
  shows "map (\<lambda>(u :: string, x). toFixed2 x) nb = map snd nb"
  using assms by (induction nb) (auto simp: toFixed2_whole)

text \<open>
  \<^verbatim>\<open>calculatePaymentPlan\<close> moves on from an entry whose rest is 0.01 or less, so even
  balances of whole cents that cancel can stay unsettled: here C is owed 0.02 and receives
  nothing.
\<close>

lemma calculatePaymentPlan_leaves_rest:
  "calculatePaymentPlan
     [(''A'', Num (2 / 100)), (''B'', Num (2 / 100)), (''C'', Num (2 / 100)),
      (''D'', Num (- 3 / 100)), (''E'', Num (- 3 / 100))]
   = [\<lparr>txFrom = ''D'', txTo = ''A'', txAmount = 2 / 100\<rparr>,
      \<lparr>txFrom = ''E'', txTo = ''B'', txAmount = 2 / 100\<rparr>]"
  by code_simp

section \<open>Claims about the debt simplification\<close>

text \<open>
  C3. The claim speaks of every balances mapping. The simplifier stops as soon as one of
  the two lists is empty, so balances that do not cancel are not settled: with A owed 30
  and B owing 50 the only transaction moves 30, and B's net flow is 20 away from B's
  balance. And balances of whole cents that do cancel can stay unsettled as well, because
  the rest of an entry is a double: with A owed 0.02, B owed 0.01 and C owing 0.03, the
  rest \<^verbatim>\<open>0.03 - 0.02\<close> of C is 0.009999999999999998, which is below \<^verbatim>\<open>0.01\<close>, so C is
  shifted out and B receives nothing.
\<close>

theorem simplifyDebts_unbalanced_counterexample:
  "simplifyDebts_f64 [(''A'', Num 30), (''B'', Num (- 50))]
     = [\<lparr>txFrom = ''B'', txTo = ''A'', txAmount = 30\<rparr>]
   \<and> netFlow [\<lparr>txFrom = ''B'', txTo = ''A'', txAmount = 30\<rparr>] ''B'' = - 30
   \<and> simplifyDebts_f64
         [(''A'', Num (fl (2 / 100))), (''B'', Num (fl (1 / 100))), (''C'', Num (- fl (3 / 100)))]
     = [\<lparr>txFrom = ''C'', txTo = ''A'', txAmount = fl (2 / 100)\<rparr>]
   \<and> netFlow [\<lparr>txFrom = ''C'', txTo = ''A'', txAmount = fl (2 / 100)\<rparr>] ''B'' = 0
   \<and> 0 < fl (1 / 100)"
proof -
  \<comment> \<open>balances that do not cancel\<close>
  have w: "\<forall>(u, x) \<in> set [(''A'', 30 :: real), (''B'', - 50)]. x \<in> \<int> \<and> \<bar>x\<bar> \<le> 10 ^ 12" by simp
  have "simplifyDebts_f64 (numeric [(''A'', 30), (''B'', - 50)])
          = simplifyDebts (numeric [(''A'', 30), (''B'', - 50)])"
    using w by (rule simplifyDebts_f64_whole)
  also have "\<dots> = [\<lparr>txFrom = ''B'', txTo = ''A'', txAmount = 30\<rparr>]"
    by code_simp
  finally have u: "simplifyDebts_f64 [(''A'', Num 30), (''B'', Num (- 50))]
     = [\<lparr>txFrom = ''B'', txTo = ''A'', txAmount = 30\<rparr>]"
    by (simp add: numeric_def)
  have un: "netFlow [\<lparr>txFrom = ''B'', txTo = ''A'', txAmount = 30\<rparr>] ''B'' = - 30"
    by (simp add: netFlow_def)
  \<comment> \<open>balances of whole cents that cancel\<close>
  define a1 where "a1 = fl (1 / 100)"
  define a2 where "a2 = fl (2 / 100)"
  define a3 where "a3 = fl (3 / 100)"
  have pos: "0 < a1" unfolding a1_def by (rule fl_cent_pos)
  have lt12: "a1 < a2" and lt23: "a2 < a3"
    unfolding a1_def a2_def a3_def fl_cent_values by simp_all
  have tB: "toFixed2_f64 a1 = a1"
    using toFixed2_f64_cents[of 1] by (simp add: a1_def)
  have tA: "toFixed2_f64 a2 = a2"
    using toFixed2_f64_cents[of 2] by (simp add: a2_def)
  have c3: "centsOf a3 = 3" using centsOf_fl_cents[of 3] by (simp add: a3_def)
  have a30: "a3 \<noteq> 0" using pos lt12 lt23 by linarith
  have "toFixed2_f64 (- a3) = fl (- (3 / 100))"
    by (simp add: toFixed2_f64_def centsOf_minus[OF a30] c3)
  then have tC: "toFixed2_f64 (- a3) = - a3" by (simp only: fl_minus_3_cents a3_def)
  have key: "fsub a3 a2 < a1" unfolding a1_def a2_def a3_def by (rule three_minus_two_cents)
  have same: "fsub a2 a2 = 0" by (simp add: fsub_def fl_0)
  have mn: "min a3 a2 = a2" using lt23 by simp
  have cred: "creditorsOf_f64 [(''A'', Num a2), (''B'', Num a1), (''C'', Num (- a3))]
                = [(''A'', a2), (''B'', a1)]"
    using pos lt12 lt23 by (simp add: creditorsOf_f64_def Let_def tA tB tC)
  have debt: "debtorsOf_f64 [(''A'', Num a2), (''B'', Num a1), (''C'', Num (- a3))]
                = [(''C'', a3)]"
    using pos lt12 lt23 by (simp add: debtorsOf_f64_def Let_def tA tB tC)
  have sc: "sortDescending [(''A'', a2), (''B'', a1)] = [(''A'', a2), (''B'', a1)]"
    using lt12 by (simp add: sortDescending_def)
  have sd: "sortDescending [(''C'', a3)] = [(''C'', a3)]"
    by (simp add: sortDescending_def)
  have a2pos: "0 < a2" using pos lt12 by linarith
  have loop: "greedyLoop_f64 [(''C'', a3)] [(''A'', a2), (''B'', a1)]
                = [\<lparr>txFrom = ''C'', txTo = ''A'', txAmount = a2\<rparr>]"
    using key pos a2pos by (simp add: mn same tA a1_def[symmetric])
  have slip: "simplifyDebts_f64 [(''A'', Num a2), (''B'', Num a1), (''C'', Num (- a3))]
                = [\<lparr>txFrom = ''C'', txTo = ''A'', txAmount = a2\<rparr>]"
    by (simp only: simplifyDebts_f64_def cred debt sc sd loop)
  have sn: "netFlow [\<lparr>txFrom = ''C'', txTo = ''A'', txAmount = a2\<rparr>] ''B'' = 0"
    by (simp add: netFlow_def)
  from u un slip[unfolded a1_def a2_def a3_def] sn[unfolded a2_def] pos[unfolded a1_def]
  show ?thesis by (intro conjI)
qed

text \<open>
  C3, as amended. For every balances mapping of \<^verbatim>\<open>simplifyDebts\<close> (distinct keys) whose
  balances are whole numbers of magnitude at most 10^12 and add up to zero, and for every
  participant X: what X receives minus what X pays in the returned transactions,
  computed in double precision, equals X's balance (zero for a participant that is no
  key).
\<close>

theorem simplifyDebts_settles_balances:
  assumes "distinct (map fst balances)"
    and "\<forall>(userId, x) \<in> set balances. x \<in> \<int> \<and> \<bar>x\<bar> \<le> 10 ^ 12"
    and "sum_list (map snd balances) = 0"
  shows "netFlow (simplifyDebts_f64 (numeric balances)) X
           = (case map_of balances X of None \<Rightarrow> 0 | Some x \<Rightarrow> x)"
proof -
  have z: "sum_list (map (\<lambda>(u, x). toFixed2 x) balances) = 0"
    using assms(3) by (simp only: sum_toFixed2_whole[OF assms(2)])
  have "netFlow (simplifyDebts_f64 (numeric balances)) X
          = netFlow (simplifyDebts (numeric balances)) X"
    by (simp only: simplifyDebts_f64_whole[OF assms(2)])
  also have "\<dots> = sum_list (map (\<lambda>(u, x). toFixed2 x) (filter (\<lambda>e. fst e = X) balances))"
    using z by (rule simplifyDebts_flows)
  also have "\<dots> = (case map_of balances X of None \<Rightarrow> 0 | Some x \<Rightarrow> toFixed2 x)"
    using assms(1) by (rule filter_key_distinct)
  also have "\<dots> = (case map_of balances X of None \<Rightarrow> 0 | Some x \<Rightarrow> x)"
  proof (cases "map_of balances X")
    case None then show ?thesis by simp
  next
    case (Some x)
    then have "(X, x) \<in> set balances" by (rule map_of_SomeD)
    with assms(2) have "x \<in> \<int>" by auto
    then show ?thesis using Some by (simp add: toFixed2_whole)
  qed
  finally show ?thesis .
qed

theorem simplifyDebts_settles_balances_witness:
  "netFlow (simplifyDebts_f64 (numeric [(''A'', 30), (''B'', 20), (''C'', - 50)])) ''C'' = - 50"
proof -
  have 1: "distinct (map fst [(''A'', 30 :: real), (''B'', 20), (''C'', - 50)])" by simp
  have 2: "\<forall>(userId, x) \<in> set [(''A'', 30 :: real), (''B'', 20), (''C'', - 50)].
             x \<in> \<int> \<and> \<bar>x\<bar> \<le> 10 ^ 12" by simp
  have 3: "sum_list (map snd [(''A'', 30 :: real), (''B'', 20), (''C'', - 50)]) = 0" by simp
  from simplifyDebts_settles_balances[OF 1 2 3, of "''C''"] show ?thesis by simp
qed

text \<open>
  C5. A balance of 0.007 is zero within 0.01, but \<^verbatim>\<open>simplifyDebts\<close> rounds it to 0.01
  and lists its owner as a creditor, and \<^verbatim>\<open>calculatePaymentPlan\<close>, which does not round,
  lists every balance that is not exactly zero.
\<close>

theorem near_zero_balance_counterexample:
  "\<bar>7 / 1000 :: real\<bar> < 1 / 100
   \<and> creditorsOf [(''A'', Num (7 / 1000)), (''B'', Num (- 7 / 1000))] = [(''A'', 1 / 100)]
   \<and> simplifyDebts [(''A'', Num (7 / 1000)), (''B'', Num (- 7 / 1000))]
       = [\<lparr>txFrom = ''B'', txTo = ''A'', txAmount = 1 / 100\<rparr>]
   \<and> calculatePaymentPlan [(''A'', Num (7 / 1000)), (''B'', Num (- 7 / 1000))]
       = [\<lparr>txFrom = ''B'', txTo = ''A'', txAmount = 1 / 100\<rparr>]"
  by code_simp

text \<open>
  C5, as amended. In \<^verbatim>\<open>simplifyDebts\<close>, a participant whose balance rounds to 0.00 (its
  magnitude is below 0.005) is in neither the creditor list nor the debtor list and is
  neither the \<^verbatim>\<open>from\<close> nor the \<^verbatim>\<open>to\<close> party of any transaction; in
  \<^verbatim>\<open>calculatePaymentPlan\<close> the same holds for a participant whose balance is exactly
  zero.
\<close>

theorem zero_balance_excluded:
  assumes "distinct (map fst balances)" and "map_of balances X = Some (Num x)"
  shows "(\<bar>x\<bar> < 1 / 200 \<longrightarrow>
            X \<notin> fst ` set (creditorsOf balances) \<and> X \<notin> fst ` set (debtorsOf balances)
          \<and> (\<forall>t \<in> set (simplifyDebts balances). txFrom t \<noteq> X \<and> txTo t \<noteq> X))
       \<and> (x = 0 \<longrightarrow>
            X \<notin> fst ` set (planCreditors balances) \<and> X \<notin> fst ` set (planDebtors balances)
          \<and> (\<forall>t \<in> set (calculatePaymentPlan balances). txFrom t \<noteq> X \<and> txTo t \<noteq> X))"
proof (intro conjI impI)
  assume "\<bar>x\<bar> < 1 / 200"
  then have z: "toFixed2 x = 0" by (simp only: toFixed2_zero_iff)
  show c: "X \<notin> fst ` set (creditorsOf balances)"
  proof
    assume "X \<in> fst ` set (creditorsOf balances)"
    then obtain a where "(X, a) \<in> set (creditorsOf balances)" by auto
    then obtain y where "(X, Num y) \<in> set balances" "0 < toFixed2 y"
      using creditorsOf_keys by blast
    with distinct_key_value[OF assms] z show False by fastforce
  qed
  show d: "X \<notin> fst ` set (debtorsOf balances)"
  proof
    assume "X \<in> fst ` set (debtorsOf balances)"
    then obtain a where "(X, a) \<in> set (debtorsOf balances)" by auto
    then obtain y where "(X, Num y) \<in> set balances" "toFixed2 y < 0"
      using debtorsOf_keys by blast
    with distinct_key_value[OF assms] z show False by fastforce
  qed
  show "\<forall>t \<in> set (simplifyDebts balances). txFrom t \<noteq> X \<and> txTo t \<noteq> X"
  proof
    fix t assume "t \<in> set (simplifyDebts balances)"
    then have "txFrom t \<in> fst ` set (debtorsOf balances) \<and> txTo t \<in> fst ` set (creditorsOf balances)"
      unfolding simplifyDebts_def using greedyLoop_parties set_sortDescending by metis
    with c d show "txFrom t \<noteq> X \<and> txTo t \<noteq> X" by auto
  qed
next
  assume z: "x = 0"
  show c: "X \<notin> fst ` set (planCreditors balances)"
  proof
    assume "X \<in> fst ` set (planCreditors balances)"
    then obtain a where "(X, a) \<in> set (planCreditors balances)" by auto
    then obtain y where "(X, Num y) \<in> set balances" "0 < y"
      using planCreditors_keys by blast
    with distinct_key_value[OF assms] z show False by fastforce
  qed
  show d: "X \<notin> fst ` set (planDebtors balances)"
  proof
    assume "X \<in> fst ` set (planDebtors balances)"
    then obtain a where "(X, a) \<in> set (planDebtors balances)" by auto
    then obtain y where "(X, Num y) \<in> set balances" "y < 0"
      using planDebtors_keys by blast
    with distinct_key_value[OF assms] z show False by fastforce
  qed
  show "\<forall>t \<in> set (calculatePaymentPlan balances). txFrom t \<noteq> X \<and> txTo t \<noteq> X"
  proof
    fix t assume "t \<in> set (calculatePaymentPlan balances)"
    then have "txFrom t \<in> fst ` set (planDebtors balances) \<and> txTo t \<in> fst ` set (planCreditors balances)"
      unfolding calculatePaymentPlan_def using paymentLoop_parties set_sortDescending by metis
    with c d show "txFrom t \<noteq> X \<and> txTo t \<noteq> X" by auto
  qed
qed

theorem zero_balance_excluded_witness:
  "''A'' \<notin> fst ` set (creditorsOf [(''A'', Num (4 / 1000)), (''B'', Num 10), (''C'', Num (- 10))])
   \<and> ''A'' \<notin> fst ` set (debtorsOf [(''A'', Num (4 / 1000)), (''B'', Num 10), (''C'', Num (- 10))])
   \<and> ''A'' \<notin> txFrom ` set (simplifyDebts [(''A'', Num (4 / 1000)), (''B'', Num 10), (''C'', Num (- 10))])
   \<and> ''A'' \<notin> txTo ` set (simplifyDebts [(''A'', Num (4 / 1000)), (''B'', Num 10), (''C'', Num (- 10))])
   \<and> ''A'' \<notin> txFrom ` set (calculatePaymentPlan [(''A'', Num 0), (''B'', Num 10), (''C'', Num (- 10))])
   \<and> ''A'' \<notin> txTo ` set (calculatePaymentPlan [(''A'', Num 0), (''B'', Num 10), (''C'', Num (- 10))])"
proof -
  have d: "distinct (map fst [(''A'', Num (4 / 1000)), (''B'', Num 10), (''C'', Num (- 10))])"
    by simp
  have m: "map_of [(''A'', Num (4 / 1000)), (''B'', Num 10), (''C'', Num (- 10))] ''A''
             = Some (Num (4 / 1000))"
    by simp
  have a: "\<bar>4 / 1000 :: real\<bar> < 1 / 200" by simp
  have d0: "distinct (map fst [(''A'', Num 0), (''B'', Num 10), (''C'', Num (- 10))])"
    by simp
  have m0: "map_of [(''A'', Num 0), (''B'', Num 10), (''C'', Num (- 10))] ''A'' = Some (Num 0)"
    by simp
  note t = zero_balance_excluded[OF d m, THEN conjunct1, THEN mp, OF a]
  note t0 = zero_balance_excluded[OF d0 m0, THEN conjunct2, THEN mp, OF refl]
  have img: "a \<notin> txFrom ` S \<and> a \<notin> txTo ` S"
    if "\<forall>t \<in> S. txFrom t \<noteq> a \<and> txTo t \<noteq> a" for a :: string and S :: "transaction set"
    using that by auto
  from t have 1: "''A'' \<notin> fst ` set (creditorsOf [(''A'', Num (4 / 1000)), (''B'', Num 10), (''C'', Num (- 10))])"
    and 2: "''A'' \<notin> fst ` set (debtorsOf [(''A'', Num (4 / 1000)), (''B'', Num 10), (''C'', Num (- 10))])"
    and 3: "\<forall>t \<in> set (simplifyDebts [(''A'', Num (4 / 1000)), (''B'', Num 10), (''C'', Num (- 10))]).
              txFrom t \<noteq> ''A'' \<and> txTo t \<noteq> ''A''"
    by (rule conjunct1, rule conjunct2[THEN conjunct1], rule conjunct2[THEN conjunct2])
  from t0 have 4: "\<forall>t \<in> set (calculatePaymentPlan [(''A'', Num 0), (''B'', Num 10), (''C'', Num (- 10))]).
              txFrom t \<noteq> ''A'' \<and> txTo t \<noteq> ''A''"
    by (rule conjunct2[THEN conjunct2])
  from 1 2 img[OF 3] img[OF 4] show ?thesis by (intro conjI) (erule conjunct1 conjunct2 | assumption)+
qed

section \<open>Properties of the group balances\<close>

lemma map_of_applySplit:
  assumes "map_of b X = Some (Num v)"
  shows "map_of (applySplit s b) X = Some (Num (v - (if user s = X then share s else 0)))"
  using assms by (auto simp: applySplit_def update_conv' readKey_def)

lemma map_of_fold_applySplit:
  assumes "map_of b X = Some (Num v)"
  shows "map_of (fold applySplit ss b) X
           = Some (Num (v - sum_list (map share (filter (\<lambda>s. user s = X) ss))))"
  using assms
proof (induction ss arbitrary: b v)
  case Nil
  then show ?case by simp
next
  case (Cons s ss)
  from map_of_applySplit[OF Cons.prems]
  have "map_of (applySplit s b) X = Some (Num (v - (if user s = X then share s else 0)))" .
  from Cons.IH[OF this] show ?case by (simp add: algebra_simps)
qed

lemma map_of_applyExpense:
  assumes "map_of b X = Some (Num v)"
  shows "map_of (applyExpense e b) X
           = Some (Num (v + (if paidBy e = X then amount e else 0)
                          - sum_list (map share (filter (\<lambda>s. user s = X) (splits e)))))"
proof -
  have "map_of (AList.update (paidBy e) (plusNum (readKey b (paidBy e)) (amount e)) b) X
          = Some (Num (v + (if paidBy e = X then amount e else 0)))"
    using assms by (auto simp: update_conv' readKey_def)
  from map_of_fold_applySplit[OF this] show ?thesis by (simp add: applyExpense_def)
qed

lemma map_of_fold_applyExpense:
  assumes "map_of b X = Some (Num v)"
  shows "map_of (fold applyExpense es b) X = Some (Num (v + specRawBalance es X))"
  using assms
proof (induction es arbitrary: b v)
  case Nil
  then show ?case by (simp add: specRawBalance_def)
next
  case (Cons e es)
  from Cons.IH[OF map_of_applyExpense[OF Cons.prems]]
  show ?case by (simp add: specRawBalance_def algebra_simps)
qed

lemma map_of_fold_init:
  assumes "X \<in> set ms \<or> map_of b X = Some (Num 0)"
  shows "map_of (fold (\<lambda>member balances. AList.update member (Num 0) balances) ms b) X
           = Some (Num 0)"
  using assms
proof (induction ms arbitrary: b)
  case Nil
  then show ?case by simp
next
  case (Cons m ms)
  have "X \<in> set ms \<or> map_of (AList.update m (Num 0) b) X = Some (Num 0)"
    using Cons.prems by (auto simp: update_conv')
  from Cons.IH[OF this] show ?case by simp
qed

lemma map_of_initBalances: "X \<in> set groupMembers \<Longrightarrow> map_of (initBalances groupMembers) X = Some (Num 0)"
  unfolding initBalances_def by (rule map_of_fold_init) simp

lemma applySplit_settled: "applySplit (s\<lparr>settled := c\<rparr>) = applySplit s"
  by (simp add: applySplit_def fun_eq_iff)

lemma applyExpense_withSettled: "applyExpense (withSettled f e) = applyExpense e"
proof -
  have "fold applySplit (map (\<lambda>s. s\<lparr>settled := f s\<rparr>) ss) b = fold applySplit ss b" for ss b
    by (induction ss arbitrary: b) (simp_all add: applySplit_settled)
  then show ?thesis by (simp add: applyExpense_def withSettled_def fun_eq_iff)
qed

lemma rawBalances_withSettled:
  "rawBalances (map (withSettled f) expenses) groupMembers = rawBalances expenses groupMembers"
proof -
  have "fold applyExpense (map (withSettled f) es) b = fold applyExpense es b" for es b
    by (induction es arbitrary: b) (simp_all add: applyExpense_withSettled)
  then show ?thesis by (simp add: rawBalances_def)
qed

section \<open>Properties of the per-user figures\<close>

lemma fold_add_sum: "fold (\<lambda>x total. total + g x) xs (a::real) = a + sum_list (map g xs)"
  by (induction xs arbitrary: a) simp_all

lemma fold_cond_sum:
  "fold (\<lambda>x total. if P x then total + g x else total) xs (a::real)
     = a + sum_list (map g (filter P xs))"
  by (induction xs arbitrary: a) simp_all

lemma youPaidOf_spec: "youPaidOf expenses userId = specYouPaid expenses userId"
  by (simp add: youPaidOf_def specYouPaid_def fold_cond_sum)

lemma othersYetToPayOf_spec: "othersYetToPayOf expenses userId = specOthersYetToPay expenses userId"
  by (simp add: othersYetToPayOf_def specOthersYetToPay_def fold_cond_sum fold_add_sum
                sharesWhere_def[abs_def])

lemma youNeedToPayOf_spec: "youNeedToPayOf expenses userId = specYouNeedToPay expenses userId"
  by (simp add: youNeedToPayOf_def specYouNeedToPay_def fold_add_sum firstShare_def[abs_def])

lemma youPaidOthersSettled_spec:
  "youPaidOthersSettled expenses userId = specOthersSettled expenses userId"
  by (simp add: youPaidOthersSettled_def specOthersSettled_def fold_cond_sum fold_add_sum
                sharesWhere_def[abs_def])

lemma firstShare_no_match:
  assumes "\<not> list_ex P (splits e)" shows "firstShare P e = 0"
proof -
  from assms have "find P (splits e) = None" by (auto simp: find_None_iff list_ex_iff)
  then show ?thesis by (simp add: firstShare_def)
qed

lemma sum_firstShare_filter:
  "sum_list (map (firstShare P) (filter (\<lambda>e. Q e \<and> list_ex P (splits e)) es))
     = sum_list (map (firstShare P) (filter Q es))"
  by (induction es) (auto simp: firstShare_no_match)

lemma othersPaidYouSettled_spec:
  "othersPaidYouSettled expenses userId = specOwnSettled expenses userId"
proof -
  have "othersPaidYouSettled expenses userId
          = sum_list (map (firstShare (\<lambda>s. user s = userId \<and> settled s))
              (filter (\<lambda>e. paidBy e \<noteq> userId \<and> list_ex (\<lambda>s. user s = userId \<and> settled s) (splits e))
                      expenses))"
    by (simp add: othersPaidYouSettled_def fold_add_sum firstShare_def[abs_def])
  then show ?thesis by (simp only: sum_firstShare_filter specOwnSettled_def)
qed

lemma calculateUserBalance_fold:
  "fold (\<lambda>e acc.
             \<lparr>userOwes =
                (case find (\<lambda>s. user s = userId) (splits e) of
                   Some userSplit \<Rightarrow> userOwes acc + share userSplit
                 | None \<Rightarrow> userOwes acc),
              userIsOwed =
                (if paidBy e = userId then userIsOwed acc + amount e else userIsOwed acc)\<rparr>)
          es \<lparr>userOwes = a, userIsOwed = b\<rparr>
     = \<lparr>userOwes = a + specYourShare es userId, userIsOwed = b + specYouPaid es userId\<rparr>"
  by (induction es arbitrary: a b)
     (auto simp: specYourShare_def specYouPaid_def firstShare_def split: option.splits)

lemma calculateUserBalance_spec:
  "calculateUserBalance expenses userId
     = \<lparr>userOwes = specYourShare expenses userId, userIsOwed = specYouPaid expenses userId\<rparr>"
  unfolding calculateUserBalance_def calculateUserBalance_fold by simp

lemma spec_empty:
  "specYourShare [] u = 0" "specYouPaid [] u = 0" "specOthersYetToPay [] u = 0"
  "specYouNeedToPay [] u = 0" "specOthersSettled [] u = 0" "specOwnSettled [] u = 0"
  by (simp_all add: specYourShare_def specYouPaid_def specOthersYetToPay_def
                    specYouNeedToPay_def specOthersSettled_def specOwnSettled_def)

lemma toFixed2_0: "toFixed2 0 = 0" by (simp add: toFixed2_def)

lemma fold_statsStep:
  "totalYourShare (fold (statsStep userId) groups t)
     = totalYourShare t + sum_list (map (\<lambda>g. specYourShare g userId) groups)
   \<and> totalYouPaid (fold (statsStep userId) groups t)
     = totalYouPaid t + sum_list (map (\<lambda>g. specYouPaid g userId) groups)
   \<and> totalYouNeedToPay (fold (statsStep userId) groups t)
     = totalYouNeedToPay t + sum_list (map (\<lambda>g. specYouNeedToPay g userId) groups)
   \<and> totalOthersYetToPay (fold (statsStep userId) groups t)
     = totalOthersYetToPay t + sum_list (map (\<lambda>g. specOthersYetToPay g userId) groups)"
proof (induction groups arbitrary: t)
  case Nil
  then show ?case by simp
next
  case (Cons g groups)
  show ?case
  proof (cases "g = []")
    case True
    then show ?thesis using Cons[of t] by (simp add: statsStep_def spec_empty)
  next
    case False
    then show ?thesis
      using Cons[of "statsStep userId g t"]
      by (simp add: statsStep_def calculateUserBalance_spec youPaidOf_spec
                    youNeedToPayOf_spec othersYetToPayOf_spec)
  qed
qed

lemma fold_stats_v1:
  "fold (\<lambda>groupExpenses (totalOwed, totalOwing).
                    let ub = calculateUserBalance groupExpenses userId
                    in (totalOwed + toFixed2 (userIsOwed ub),
                        totalOwing + toFixed2 (userOwes ub)))
                 groups (a, b)
     = (a + sum_list (map (\<lambda>g. toFixed2 (specYouPaid g userId)) groups),
        b + sum_list (map (\<lambda>g. toFixed2 (specYourShare g userId)) groups))"
  by (induction groups arbitrary: a b) (simp_all add: calculateUserBalance_spec)

section \<open>Claims about the balance aggregation\<close>

text \<open>
  C4. For every expense list and every member X of the participant list, the raw balance
  that \<^verbatim>\<open>calculateGroupBalances\<close> returns for X is the sum of the amounts of the expenses
  X paid minus the sum of the shares of X's splits; the settled flags do not enter
  (replacing them changes nothing). For the one expense of 100 paid by A and split 50/50
  between A and B, the balances are A: 50 and B: -50 and the only transaction is 50 from B
  to A.
\<close>

theorem raw_balance_is_paid_minus_shares:
  "(X \<in> set groupMembers \<longrightarrow>
      map_of (fst (calculateGroupBalances expenses groupMembers)) X
        = Some (Num (specRawBalance expenses X)))
   \<and> calculateGroupBalances (map (withSettled f) expenses) groupMembers
       = calculateGroupBalances expenses groupMembers
   \<and> calculateGroupBalances
         [\<lparr>paidBy = ''A'', amount = 100,
           splits = [\<lparr>user = ''A'', share = 50, settled = False\<rparr>,
                     \<lparr>user = ''B'', share = 50, settled = False\<rparr>]\<rparr>]
         [''A'', ''B'']
       = ([(''A'', Num 50), (''B'', Num (- 50))],
          [\<lparr>txFrom = ''B'', txTo = ''A'', txAmount = 50\<rparr>])"
proof (intro conjI impI)
  assume "X \<in> set groupMembers"
  then have "map_of (initBalances groupMembers) X = Some (Num 0)" by (rule map_of_initBalances)
  from map_of_fold_applyExpense[OF this]
  show "map_of (fst (calculateGroupBalances expenses groupMembers)) X
        = Some (Num (specRawBalance expenses X))"
    by (simp add: calculateGroupBalances_def rawBalances_def Let_def)
next
  show "calculateGroupBalances (map (withSettled f) expenses) groupMembers
       = calculateGroupBalances expenses groupMembers"
    by (simp add: calculateGroupBalances_def rawBalances_withSettled)
next
  show "calculateGroupBalances
         [\<lparr>paidBy = ''A'', amount = 100,
           splits = [\<lparr>user = ''A'', share = 50, settled = False\<rparr>,
                     \<lparr>user = ''B'', share = 50, settled = False\<rparr>]\<rparr>]
         [''A'', ''B'']
       = ([(''A'', Num 50), (''B'', Num (- 50))],
          [\<lparr>txFrom = ''B'', txTo = ''A'', txAmount = 50\<rparr>])"
    by code_simp
qed

theorem raw_balance_is_paid_minus_shares_witness:
  "map_of (fst (calculateGroupBalances
         [\<lparr>paidBy = ''A'', amount = 100,
           splits = [\<lparr>user = ''A'', share = 50, settled = False\<rparr>,
                     \<lparr>user = ''B'', share = 50, settled = True\<rparr>]\<rparr>]
         [''A'', ''B''])) ''B''
     = Some (Num (specRawBalance
         [\<lparr>paidBy = ''A'', amount = 100,
           splits = [\<lparr>user = ''A'', share = 50, settled = False\<rparr>,
                     \<lparr>user = ''B'', share = 50, settled = True\<rparr>]\<rparr>] ''B''))"
proof -
  have 1: "''B'' \<in> set [''A'', ''B'']" by simp
  show ?thesis
    by (rule raw_balance_is_paid_minus_shares[THEN conjunct1, THEN mp, OF 1])
qed

text \<open>
  C6. The first revision of \<^verbatim>\<open>getUserStats\<close> rounds the two subtotals of every group
  before it adds them: two groups in which the user paid 10.004 each give a total of 20.00,
  where one rounding of 20.008 gives 20.01. And \<^verbatim>\<open>calculateGroupBalances\<close> returns its
  balances as they are, here 5.004.
\<close>

theorem rounding_once_counterexample:
  "totalOwed (getUserStats_v1
       [[\<lparr>paidBy = ''U'', amount = 10004 / 1000,
            splits = [\<lparr>user = ''U'', share = 5, settled = False\<rparr>,
                      \<lparr>user = ''V'', share = 5, settled = False\<rparr>]\<rparr>],
        [\<lparr>paidBy = ''U'', amount = 10004 / 1000,
            splits = [\<lparr>user = ''U'', share = 5, settled = False\<rparr>,
                      \<lparr>user = ''V'', share = 5, settled = False\<rparr>]\<rparr>]] ''U'') = 20
   \<and> toFixed2 (specYouPaid
       [\<lparr>paidBy = ''U'', amount = 10004 / 1000,
            splits = [\<lparr>user = ''U'', share = 5, settled = False\<rparr>,
                      \<lparr>user = ''V'', share = 5, settled = False\<rparr>]\<rparr>] ''U''
     + specYouPaid
       [\<lparr>paidBy = ''U'', amount = 10004 / 1000,
            splits = [\<lparr>user = ''U'', share = 5, settled = False\<rparr>,
                      \<lparr>user = ''V'', share = 5, settled = False\<rparr>]\<rparr>] ''U'') = 2001 / 100
   \<and> fst (calculateGroupBalances
       [\<lparr>paidBy = ''U'', amount = 10004 / 1000,
            splits = [\<lparr>user = ''U'', share = 5, settled = False\<rparr>,
                      \<lparr>user = ''V'', share = 5, settled = False\<rparr>]\<rparr>] [''U'', ''V''])
     = [(''U'', Num (5004 / 1000)), (''V'', Num (- 5))]
   \<and> toFixed2 (5004 / 1000) \<noteq> 5004 / 1000"
  by code_simp

text \<open>
  C6, as amended. The values \<^verbatim>\<open>yourShare\<close>, \<^verbatim>\<open>youPaid\<close>, \<^verbatim>\<open>youNeedToPay\<close> and
  \<^verbatim>\<open>othersYetToPay\<close> of \<^verbatim>\<open>getGroupBalanceSummary\<close>, and the values \<^verbatim>\<open>totalOwed\<close>,
  \<^verbatim>\<open>totalOwing\<close>, \<^verbatim>\<open>totalPaid\<close>, \<^verbatim>\<open>youNeedToPay\<close>, \<^verbatim>\<open>othersYetToPay\<close> and
  \<^verbatim>\<open>overallBalance\<close> of the second revision of \<^verbatim>\<open>getUserStats\<close>, are sums over the
  expenses (and over the user's groups) taken at full precision and rounded to 2 decimals
  once, at output. The first revision of \<^verbatim>\<open>getUserStats\<close> rounds each group's subtotal
  to 2 decimals, adds the rounded subtotals and rounds the result again. The balances of
  \<^verbatim>\<open>calculateGroupBalances\<close> are returned at full precision, not rounded.
\<close>

theorem stats_rounded_at_output:
  "yourShare (getGroupBalanceSummary expenses userId) = toFixed2 (specYourShare expenses userId)
   \<and> youPaid (getGroupBalanceSummary expenses userId) = toFixed2 (specYouPaid expenses userId)
   \<and> summaryYouNeedToPay (getGroupBalanceSummary expenses userId)
       = toFixed2 (specYouNeedToPay expenses userId)
   \<and> summaryOthersYetToPay (getGroupBalanceSummary expenses userId)
       = toFixed2 (specOthersYetToPay expenses userId)
   \<and> totalOwed (getUserStats_v2 groups userId)
       = toFixed2 (sum_list (map (\<lambda>g. specOthersYetToPay g userId) groups))
   \<and> totalOwing (getUserStats_v2 groups userId)
       = toFixed2 (sum_list (map (\<lambda>g. specYourShare g userId) groups))
   \<and> totalPaid (getUserStats_v2 groups userId)
       = toFixed2 (sum_list (map (\<lambda>g. specYouPaid g userId) groups))
   \<and> youNeedToPay (getUserStats_v2 groups userId)
       = toFixed2 (sum_list (map (\<lambda>g. specYouNeedToPay g userId) groups))
   \<and> othersYetToPay (getUserStats_v2 groups userId)
       = toFixed2 (sum_list (map (\<lambda>g. specOthersYetToPay g userId) groups))
   \<and> overallBalance (getUserStats_v2 groups userId)
       = toFixed2 (sum_list (map (\<lambda>g. specOthersYetToPay g userId) groups)
                   - sum_list (map (\<lambda>g. specYouNeedToPay g userId) groups))
   \<and> totalOwed (getUserStats_v1 groups userId)
       = toFixed2 (sum_list (map (\<lambda>g. toFixed2 (specYouPaid g userId)) groups))
   \<and> totalOwing (getUserStats_v1 groups userId)
       = toFixed2 (sum_list (map (\<lambda>g. toFixed2 (specYourShare g userId)) groups))
   \<and> overallBalance (getUserStats_v1 groups userId)
       = toFixed2 (sum_list (map (\<lambda>g. toFixed2 (specYouPaid g userId)) groups)
                   - sum_list (map (\<lambda>g. toFixed2 (specYourShare g userId)) groups))
   \<and> (X \<in> set groupMembers \<longrightarrow>
        map_of (fst (calculateGroupBalances expenses groupMembers)) X
          = Some (Num (specRawBalance expenses X)))"
proof -
  have summary:
    "yourShare (getGroupBalanceSummary expenses userId) = toFixed2 (specYourShare expenses userId)"
    "youPaid (getGroupBalanceSummary expenses userId) = toFixed2 (specYouPaid expenses userId)"
    "summaryYouNeedToPay (getGroupBalanceSummary expenses userId)
       = toFixed2 (specYouNeedToPay expenses userId)"
    "summaryOthersYetToPay (getGroupBalanceSummary expenses userId)
       = toFixed2 (specOthersYetToPay expenses userId)"
    by (simp_all add: getGroupBalanceSummary_def spec_empty toFixed2_0 calculateUserBalance_spec
                      youPaidOf_spec youNeedToPayOf_spec othersYetToPayOf_spec)
  note f = fold_statsStep[of userId groups
             "\<lparr>totalYourShare = 0, totalYouPaid = 0, totalOthersPaidYou = 0,
               totalYouNeedToPay = 0, totalOthersYetToPay = 0\<rparr>"]
  have v2:
    "totalOwed (getUserStats_v2 groups userId)
       = toFixed2 (sum_list (map (\<lambda>g. specOthersYetToPay g userId) groups))"
    "totalOwing (getUserStats_v2 groups userId)
       = toFixed2 (sum_list (map (\<lambda>g. specYourShare g userId) groups))"
    "totalPaid (getUserStats_v2 groups userId)
       = toFixed2 (sum_list (map (\<lambda>g. specYouPaid g userId) groups))"
    "youNeedToPay (getUserStats_v2 groups userId)
       = toFixed2 (sum_list (map (\<lambda>g. specYouNeedToPay g userId) groups))"
    "othersYetToPay (getUserStats_v2 groups userId)
       = toFixed2 (sum_list (map (\<lambda>g. specOthersYetToPay g userId) groups))"
    "overallBalance (getUserStats_v2 groups userId)
       = toFixed2 (sum_list (map (\<lambda>g. specOthersYetToPay g userId) groups)
                   - sum_list (map (\<lambda>g. specYouNeedToPay g userId) groups))"
    using f by (simp_all add: getUserStats_v2_def Let_def)
  have v1:
    "totalOwed (getUserStats_v1 groups userId)
       = toFixed2 (sum_list (map (\<lambda>g. toFixed2 (specYouPaid g userId)) groups))"
    "totalOwing (getUserStats_v1 groups userId)
       = toFixed2 (sum_list (map (\<lambda>g. toFixed2 (specYourShare g userId)) groups))"
    "overallBalance (getUserStats_v1 groups userId)
       = toFixed2 (sum_list (map (\<lambda>g. toFixed2 (specYouPaid g userId)) groups)
                   - sum_list (map (\<lambda>g. toFixed2 (specYourShare g userId)) groups))"
    by (simp_all add: getUserStats_v1_def fold_stats_v1)
  have raw: "X \<in> set groupMembers \<longrightarrow>
        map_of (fst (calculateGroupBalances expenses groupMembers)) X
          = Some (Num (specRawBalance expenses X))"
  proof
    assume "X \<in> set groupMembers"
    then have "map_of (initBalances groupMembers) X = Some (Num 0)" by (rule map_of_initBalances)
    from map_of_fold_applyExpense[OF this]
    show "map_of (fst (calculateGroupBalances expenses groupMembers)) X
          = Some (Num (specRawBalance expenses X))"
      by (simp add: calculateGroupBalances_def rawBalances_def Let_def)
  qed
  from summary v2 v1 raw show ?thesis by blast
qed

theorem stats_rounded_at_output_witness:
  "map_of (fst (calculateGroupBalances
       [\<lparr>paidBy = ''U'', amount = 10004 / 1000,
            splits = [\<lparr>user = ''U'', share = 5, settled = False\<rparr>,
                      \<lparr>user = ''V'', share = 5, settled = False\<rparr>]\<rparr>] [''U'', ''V''])) ''U''
     = Some (Num (specRawBalance
       [\<lparr>paidBy = ''U'', amount = 10004 / 1000,
            splits = [\<lparr>user = ''U'', share = 5, settled = False\<rparr>,
                      \<lparr>user = ''V'', share = 5, settled = False\<rparr>]\<rparr>] ''U''))"
proof -
  have 1: "''U'' \<in> set [''U'', ''V'']" by simp
  note t = stats_rounded_at_output[where X = "''U''" and groupMembers = "[''U'', ''V'']"
       and expenses = "[\<lparr>paidBy = ''U'', amount = 10004 / 1000,
            splits = [\<lparr>user = ''U'', share = 5, settled = False\<rparr>,
                      \<lparr>user = ''V'', share = 5, settled = False\<rparr>]\<rparr>]"]
  from t 1 show ?thesis by blast
qed

text \<open>
  C7. The group summary adds to the settled shares of the others the user's own settled
  share of expenses somebody else paid (5 where the claim gives 0). The second revision of
  \<^verbatim>\<open>getUserStats\<close> takes one settled split per expense and keeps the value of the last
  group only (10 where the claim gives 40).
\<close>

theorem settled_back_counterexample:
  "summaryOthersPaidYou (getGroupBalanceSummary
       [\<lparr>paidBy = ''V'', amount = 10,
            splits = [\<lparr>user = ''U'', share = 5, settled = True\<rparr>,
                      \<lparr>user = ''V'', share = 5, settled = False\<rparr>]\<rparr>] ''U'') = 5
   \<and> specOthersSettled
       [\<lparr>paidBy = ''V'', amount = 10,
            splits = [\<lparr>user = ''U'', share = 5, settled = True\<rparr>,
                      \<lparr>user = ''V'', share = 5, settled = False\<rparr>]\<rparr>] ''U'' = 0
   \<and> othersPaidYou (getUserStats_v2
       [[\<lparr>paidBy = ''U'', amount = 30,
            splits = [\<lparr>user = ''U'', share = 10, settled = False\<rparr>,
                      \<lparr>user = ''V'', share = 10, settled = True\<rparr>,
                      \<lparr>user = ''W'', share = 10, settled = True\<rparr>]\<rparr>],
        [\<lparr>paidBy = ''U'', amount = 30,
            splits = [\<lparr>user = ''U'', share = 10, settled = False\<rparr>,
                      \<lparr>user = ''V'', share = 10, settled = True\<rparr>,
                      \<lparr>user = ''W'', share = 10, settled = True\<rparr>]\<rparr>]] ''U'') = 10
   \<and> specOthersSettled
       [\<lparr>paidBy = ''U'', amount = 30,
            splits = [\<lparr>user = ''U'', share = 10, settled = False\<rparr>,
                      \<lparr>user = ''V'', share = 10, settled = True\<rparr>,
                      \<lparr>user = ''W'', share = 10, settled = True\<rparr>]\<rparr>] ''U''
     + specOthersSettled
       [\<lparr>paidBy = ''U'', amount = 30,
            splits = [\<lparr>user = ''U'', share = 10, settled = False\<rparr>,
                      \<lparr>user = ''V'', share = 10, settled = True\<rparr>,
                      \<lparr>user = ''W'', share = 10, settled = True\<rparr>]\<rparr>] ''U'' = 40"
  by code_simp

text \<open>
  C7, as amended. In the group balance summary, the reported amount
  \<^verbatim>\<open>othersPaidYou\<close> is, rounded to 2 decimals, the sum of the shares of every settled
  split of other participants over all expenses the participant paid, plus the
  participant's own first settled share in every expense somebody else paid.
\<close>

theorem settled_back_in_group_summary:
  "summaryOthersPaidYou (getGroupBalanceSummary expenses userId)
     = toFixed2 (specOwnSettled expenses userId + specOthersSettled expenses userId)"
  by (simp add: getGroupBalanceSummary_def spec_empty toFixed2_0 othersPaidYouSettled_spec
                youPaidOthersSettled_spec)

end
